theory Spec2Isabelle
  imports Main "HOL-Library.Multiset"
begin

section \<open>Text, characters and spans\<close>

text \<open>
  A JavaScript string is modelled as a \<open>string\<close> (a list of \<open>char\<close>), one \<open>char\<close> per
  code unit; the model covers the code units 0..255. Indices are positions in the list,
  as \<open>text[i]\<close> and \<open>text.length\<close> are in the source.
\<close>

record span =
  start :: nat
  end' :: nat

text \<open>The spans after \<open>.map(s => ({ ...s, text: text.slice(s.start, s.end) }))\<close>; the
  field \<open>text\<close> is named \<open>hay\<close> here, as the source names the span's text.\<close>

record tspan = span +
  hay :: string

text \<open>\<open>Array.prototype.indexOf\<close> with a start position: the first index \<open>j \<ge> from\<close>
  holding \<open>ch\<close>; \<open>None\<close> stands for the result \<open>-1\<close>.\<close>

fun index_in :: "'a \<Rightarrow> 'a list \<Rightarrow> nat option" where
  "index_in c [] = None"
| "index_in c (x # xs) = (if x = c then Some 0 else map_option Suc (index_in c xs))"

definition indexOf :: "'a list \<Rightarrow> 'a \<Rightarrow> nat \<Rightarrow> nat option" where
  "indexOf xs c from = map_option (\<lambda>k. from + k) (index_in c (drop from xs))"

definition tokens :: "char set" where
  "tokens = {CHR 0x22, CHR ''*''}"

text \<open>\<open>parseBracketSpans\<close>: the \<open>for\<close> loop over \<open>i\<close>, returning the spans pushed from
  position \<open>i\<close> on. \<open>i = j\<close> followed by the loop's \<open>i++\<close> resumes at \<open>j + 1\<close>; the
  \<open>break\<close> ends the list.\<close>

function parseBracketSpans_from :: "string \<Rightarrow> nat \<Rightarrow> span list" where
  "parseBracketSpans_from txt i =
     (if length txt \<le> i then []
      else if txt ! i \<notin> tokens then parseBracketSpans_from txt (i + 1)
      else (case indexOf txt (txt ! i) (i + 1) of
              None \<Rightarrow> [\<lparr>start = i, end' = length txt\<rparr>]
            | Some j \<Rightarrow> \<lparr>start = i, end' = j + 1\<rparr> # parseBracketSpans_from txt (j + 1)))"
  by pat_completeness auto
termination
  by (relation "measure (\<lambda>(txt, i). length txt - i)") (auto simp: indexOf_def)

declare parseBracketSpans_from.simps [simp del]

definition parseBracketSpans :: "string \<Rightarrow> span list" where
  "parseBracketSpans txt = parseBracketSpans_from txt 0"

text \<open>\<open>getNonBracketSpans\<close>: the loop over the bracket spans carries \<open>cursor\<close> and the
  spans pushed so far.\<close>

fun complement_loop :: "span list \<Rightarrow> nat \<Rightarrow> span list \<Rightarrow> nat \<times> span list" where
  "complement_loop [] cursor spans = (cursor, spans)"
| "complement_loop (b # bs) cursor spans =
     complement_loop bs (max cursor (end' b))
       (if start b > cursor then spans @ [\<lparr>start = cursor, end' = start b\<rparr>] else spans)"

definition getNonBracketSpans :: "string \<Rightarrow> span list" where
  "getNonBracketSpans txt =
     (let brackets = parseBracketSpans txt in
      if brackets = [] then [\<lparr>start = 0, end' = length txt\<rparr>]
      else (case complement_loop brackets 0 [] of
              (cursor, spans) \<Rightarrow>
                if cursor < length txt then spans @ [\<lparr>start = cursor, end' = length txt\<rparr>]
                else spans))"

section \<open>Word-bounded matching\<close>

text \<open>
  \<open>makeWordRegex(name)\<close> builds \<open>(?:^|\W)(escaped)(?:$|\W)\<close> with the flags \<open>gi\<close>;
  \<open>getOrderFromText\<close> builds the same pattern with no flag. \<open>escapeRegex\<close> (imported
  from the host application) escapes every metacharacter, so the group matches the name
  literally. The matcher below follows the backtracking order of the pattern: the
  alternatives of each group are tried left to right at one start position.

  \<open>\W\<close> is any code unit outside \<open>[A-Za-z0-9_]\<close>. With the flag \<open>i\<close> two code units
  match when their canonical (upper case) forms agree; in the range 0..255 this pairs
  \<open>a-z\<close> with \<open>A-Z\<close> and 224..254 (but 247) with 192..222.
\<close>

definition is_word_char :: "char \<Rightarrow> bool" where
  "is_word_char c =
     (let n = (of_char c :: nat) in
      (65 \<le> n \<and> n \<le> 90) \<or> (97 \<le> n \<and> n \<le> 122) \<or> (48 \<le> n \<and> n \<le> 57) \<or> n = 95)"

definition canonicalize :: "char \<Rightarrow> char" where
  "canonicalize c =
     (let n = (of_char c :: nat) in
      if (97 \<le> n \<and> n \<le> 122) \<or> (224 \<le> n \<and> n \<le> 254 \<and> n \<noteq> 247) then char_of (n - 32) else c)"

text \<open>\<open>String.prototype.toLowerCase\<close> on the code units 0..255.\<close>

definition toLowerCase_char :: "char \<Rightarrow> char" where
  "toLowerCase_char c =
     (let n = (of_char c :: nat) in
      if (65 \<le> n \<and> n \<le> 90) \<or> (192 \<le> n \<and> n \<le> 222 \<and> n \<noteq> 215) then char_of (n + 32) else c)"

definition toLowerCase :: "string \<Rightarrow> string" where
  "toLowerCase s = map toLowerCase_char s"

definition char_matches :: "bool \<Rightarrow> char \<Rightarrow> char \<Rightarrow> bool" where
  "char_matches ignoreCase p c = (if ignoreCase then canonicalize p = canonicalize c else p = c)"

text \<open>The literal \<open>name\<close> matches the input \<open>s\<close> from its first character on.\<close>

fun match_literal :: "bool \<Rightarrow> string \<Rightarrow> string \<Rightarrow> bool" where
  "match_literal ic [] s = True"
| "match_literal ic (p # ps) [] = False"
| "match_literal ic (p # ps) (c # cs) = (char_matches ic p c \<and> match_literal ic ps cs)"

text \<open>The closing group \<open>(?:$|\W)\<close> on the rest of the input: the number of characters
  it consumes, if it matches.\<close>

fun match_closer :: "string \<Rightarrow> nat option" where
  "match_closer [] = Some 0"
| "match_closer (c # cs) = (if is_word_char c then None else Some 1)"

text \<open>The name and the closing group at position \<open>q\<close>: the length matched from \<open>q\<close>.\<close>

definition match_name_closer :: "bool \<Rightarrow> string \<Rightarrow> string \<Rightarrow> nat \<Rightarrow> nat option" where
  "match_name_closer ic name s q =
     (if q \<le> length s \<and> match_literal ic name (drop q s)
      then map_option (\<lambda>e. length name + e) (match_closer (drop (q + length name) s))
      else None)"

text \<open>The whole pattern at start position \<open>p\<close>: first the alternative \<open>^\<close> (only at
  position 0, there is no flag \<open>m\<close>), then the alternative \<open>\W\<close>. The result is the
  length of the match, which includes the delimiters the groups consumed.\<close>

definition match_at :: "bool \<Rightarrow> string \<Rightarrow> string \<Rightarrow> nat \<Rightarrow> nat option" where
  "match_at ic name s p =
     (case (if p = 0 then match_name_closer ic name s 0 else None) of
        Some l \<Rightarrow> Some l
      | None \<Rightarrow>
          if p < length s \<and> \<not> is_word_char (s ! p)
          then map_option Suc (match_name_closer ic name s (p + 1))
          else None)"

text \<open>\<open>RegExp.prototype.exec\<close> from \<open>lastIndex\<close>: the leftmost start position with a
  match, as the pair of \<open>index\<close> and match length.\<close>

function regex_exec :: "bool \<Rightarrow> string \<Rightarrow> string \<Rightarrow> nat \<Rightarrow> (nat \<times> nat) option" where
  "regex_exec ic name s p =
     (if length s < p then None
      else (case match_at ic name s p of
              Some l \<Rightarrow> Some (p, l)
            | None \<Rightarrow> regex_exec ic name s (p + 1)))"
  by pat_completeness auto
termination
  by (relation "measure (\<lambda>(ic, name, s, p). length s + 1 - p)") auto

declare regex_exec.simps [simp del]

text \<open>\<open>Array.from(hay.matchAll(rx))\<close> with the global flag: the \<open>index\<close> of every
  match, each search resuming where the previous match ended (one position further after
  an empty match). The test \<open>p < lastIndex \<or> length s < p\<close> is never true (lemma
  \<open>regex_exec_bounds\<close>); it only makes the recursion visibly terminate.\<close>

function matchAll :: "string \<Rightarrow> string \<Rightarrow> nat \<Rightarrow> nat list" where
  "matchAll name s lastIndex =
     (case regex_exec True name s lastIndex of
        None \<Rightarrow> []
      | Some (p, l) \<Rightarrow>
          if p < lastIndex \<or> length s < p then []
          else p # matchAll name s (if l = 0 then p + 1 else p + l))"
  by pat_completeness auto
termination
  by (relation "measure (\<lambda>(name, s, lastIndex). length s + 1 - lastIndex)") auto

declare matchAll.simps [simp del]

section \<open>Presence counter\<close>

datatype error = TypeError

record occurrence =
  count :: nat
  firstIndex :: "nat option"

text \<open>
  \<open>makeWordRegex\<close> looks the lower-cased name up in \<open>regexCache\<close>, a plain object. For
  the keys \<open>constructor\<close> and \<open>__proto__\<close> the lookup finds an inherited property that is
  not a regular expression; \<open>new RegExp(rx.source, rx.flags)\<close> then has no global flag and
  \<open>matchAll\<close> throws a \<open>TypeError\<close>. For every other key the cached expression was built
  from a name with the same lower-case form, which matches the same inputs under the flag
  \<open>i\<close> (lemma \<open>match_at_cached\<close>), so the cache is left out of the model.
\<close>

definition inherited_key :: "string \<Rightarrow> bool" where
  "inherited_key name = (toLowerCase name \<in> {''constructor'', ''__proto__''})"

text \<open>The inner loop \<open>for (const m of matches)\<close>.\<close>

fun count_matches :: "nat \<Rightarrow> nat list \<Rightarrow> occurrence \<Rightarrow> occurrence" where
  "count_matches st [] acc = acc"
| "count_matches st (m # ms) acc =
     (let absIndex = st + m in
      count_matches st ms
        \<lparr>count = count acc + 1,
         firstIndex = (case firstIndex acc of
                         None \<Rightarrow> Some absIndex
                       | Some f \<Rightarrow> if absIndex < f then Some absIndex else Some f)\<rparr>)"

text \<open>The outer loop \<open>for (const span of nonBracketSpans)\<close>; \<open>if (!hay) continue\<close> skips
  a span with empty text.\<close>

fun count_spans :: "string \<Rightarrow> tspan list \<Rightarrow> occurrence \<Rightarrow> error + occurrence" where
  "count_spans name [] acc = Inr acc"
| "count_spans name (sp # sps) acc =
     (if hay sp = [] then count_spans name sps acc
      else if inherited_key name then Inl TypeError
      else count_spans name sps (count_matches (start sp) (matchAll name (hay sp) 0) acc))"

definition countOccurrencesOutsideBrackets :: "string \<Rightarrow> tspan list \<Rightarrow> error + occurrence" where
  "countOccurrencesOutsideBrackets name nonBracketSpans =
     count_spans name nonBracketSpans \<lparr>count = 0, firstIndex = None\<rparr>"

text \<open>\<open>text.slice(s.start, s.end)\<close> for \<open>start \<le> end\<close> within the text.\<close>

definition slice :: "'a list \<Rightarrow> nat \<Rightarrow> nat \<Rightarrow> 'a list" where
  "slice xs a b = take (b - a) (drop a xs)"

definition with_text :: "string \<Rightarrow> span \<Rightarrow> tspan" where
  "with_text txt s = \<lparr>start = start s, end' = end' s, hay = slice txt (start s) (end' s)\<rparr>"

section \<open>Presence resolver\<close>

record message =
  mes :: string
  is_user :: bool
  is_system :: bool

text \<open>The per-chat settings read by the resolver; an absent list is the empty list.\<close>

record csettings =
  members :: "string list"
  exclude :: "string list"

record item =
  name :: string
  icount :: nat
  ifirstIndex :: "nat option"
  masterIndex :: nat
  forced :: bool

text \<open>\<open>USER_NAME\<close>: \<open>None\<close> is \<open>undefined\<close> (both lists empty).\<close>

definition user_name :: "csettings \<Rightarrow> string list \<Rightarrow> string option" where
  "user_name cs nameList =
     (if members cs \<noteq> [] then Some (hd (members cs))
      else (case nameList of [] \<Rightarrow> None | n # _ \<Rightarrow> Some n))"

text \<open>Truthiness of a possibly undefined string: \<open>undefined\<close>, \<open>null\<close> and the empty
  string are falsy.\<close>

definition truthy :: "string option \<Rightarrow> bool" where
  "truthy v = (case v of None \<Rightarrow> False | Some s \<Rightarrow> s \<noteq> [])"

text \<open>The loop \<open>for (let i = 0; i < nameList.length; i++)\<close> from index \<open>i\<close> on.\<close>

fun collect_items :: "csettings \<Rightarrow> tspan list \<Rightarrow> nat \<Rightarrow> string list \<Rightarrow> item list \<Rightarrow> error + item list" where
  "collect_items cs spans i [] items = Inr items"
| "collect_items cs spans i (n # ns) items =
     (if toLowerCase n \<in> set (exclude cs) then collect_items cs spans (i + 1) ns items
      else (case countOccurrencesOutsideBrackets n spans of
              Inl e \<Rightarrow> Inl e
            | Inr oc \<Rightarrow>
                collect_items cs spans (i + 1) ns
                  (if count oc > 0
                   then items @ [\<lparr>name = n, icount = count oc, ifirstIndex = firstIndex oc,
                                  masterIndex = i, forced = False\<rparr>]
                   else items)))"

text \<open>The block \<open>if (lastMes?.is_user) { if (USER_NAME) ... }\<close>.\<close>

fun mark_forced :: "string \<Rightarrow> item list \<Rightarrow> item list" where
  "mark_forced u [] = []"
| "mark_forced u (it # its) =
     (if name it = u then it\<lparr>forced := True\<rparr> # its else it # mark_forced u its)"

definition ensure_user :: "string \<Rightarrow> item list \<Rightarrow> item list" where
  "ensure_user u items =
     (if \<exists>it \<in> set items. name it = u then mark_forced u items
      else items @ [\<lparr>name = u, icount = 1, ifirstIndex = Some 0, masterIndex = 0, forced = True\<rparr>])"

text \<open>The comparator of \<open>items.sort\<close>. Its first two keys are compared for equality and
  the result's sign decides; \<open>None\<close> (\<open>Infinity\<close>) is larger than every index.\<close>

definition index_less :: "nat option \<Rightarrow> nat option \<Rightarrow> bool" where
  "index_less a b = (case a of None \<Rightarrow> False | Some x \<Rightarrow> (case b of None \<Rightarrow> True | Some y \<Rightarrow> x < y))"

definition item_le :: "item \<Rightarrow> item \<Rightarrow> bool" where
  "item_le a b =
     (if icount b \<noteq> icount a then icount b < icount a
      else if ifirstIndex a \<noteq> ifirstIndex b then index_less (ifirstIndex a) (ifirstIndex b)
      else masterIndex a \<le> masterIndex b)"

text \<open>\<open>Array.prototype.sort\<close> is stable; for this comparator (a total preorder) the result
  is the stable insertion sort.\<close>

fun insert_item :: "item \<Rightarrow> item list \<Rightarrow> item list" where
  "insert_item a [] = [a]"
| "insert_item a (b # bs) = (if item_le a b then a # b # bs else b # insert_item a bs)"

definition sort_items :: "item list \<Rightarrow> item list" where
  "sort_items items = foldr insert_item items []"

text \<open>\<open>items.findIndex(it => it.name === USER_NAME)\<close>; \<open>None\<close> is \<open>-1\<close>.\<close>

fun findIndex_name :: "string \<Rightarrow> item list \<Rightarrow> nat option" where
  "findIndex_name u [] = None"
| "findIndex_name u (it # its) = (if name it = u then Some 0 else map_option Suc (findIndex_name u its))"

text \<open>The demotion block (message not from the user).\<close>

definition demote :: "string \<Rightarrow> item list \<Rightarrow> item list" where
  "demote u items =
     (if findIndex_name u items = Some 0 \<and> length items > 1
      then (case items of a # b # rest \<Rightarrow> b # a # rest | _ \<Rightarrow> items)
      else items)"

text \<open>The forcing block (message from the user): \<open>splice(idx, 1)\<close> then \<open>unshift\<close>.\<close>

definition move_to_front :: "string \<Rightarrow> item list \<Rightarrow> item list" where
  "move_to_front u items =
     (case findIndex_name u items of
        None \<Rightarrow> items
      | Some idx \<Rightarrow> (items ! idx) # (take idx items @ drop (idx + 1) items))"

text \<open>The items after \<open>items.sort\<close>: collected, the user's item ensured for a user
  message, sorted.\<close>

definition sorted_items :: "csettings \<Rightarrow> message \<Rightarrow> string list \<Rightarrow> error + item list" where
  "sorted_items cs lastMes nameList =
     (let txt = mes lastMes; USER_NAME = user_name cs nameList;
          nonBracketSpans = map (with_text txt) (getNonBracketSpans txt)
      in case collect_items cs nonBracketSpans 0 nameList [] of
           Inl e \<Rightarrow> Inl e
         | Inr items \<Rightarrow>
             Inr (sort_items (if is_user lastMes \<and> truthy USER_NAME
                              then ensure_user (the USER_NAME) items else items)))"

definition getPresentOrderedNames :: "csettings \<Rightarrow> message \<Rightarrow> string list \<Rightarrow> error + string list" where
  "getPresentOrderedNames cs lastMes nameList =
     (let txt = mes lastMes; USER_NAME = user_name cs nameList in
      if txt = [] \<and> is_user lastMes
      then Inr (if truthy USER_NAME then [the USER_NAME] else [])
      else
        (case sorted_items cs lastMes nameList of
           Inl e \<Rightarrow> Inl e
         | Inr items \<Rightarrow>
             (let items1 = (if \<not> is_user lastMes \<and> truthy USER_NAME
                            then demote (the USER_NAME) items else items);
                  items2 = (if is_user lastMes \<and> truthy USER_NAME
                            then move_to_front (the USER_NAME) items1 else items1)
              in Inr (map name items2))))"

section \<open>Roster engine\<close>

text \<open>The capacities read from the settings, as integers; \<open>-1\<close> is unbounded.\<close>

record settings =
  numLeft :: int
  numRight :: int

text \<open>The module-level roster. \<open>imgs\<close> holds the \<open>data-character\<close> attribute of each wrapper
  element, in the order of the array.\<close>

record roster =
  nameList :: "string list"
  left :: "string list"
  right :: "string list"
  current :: "string option"
  imgs :: "string list"
  busy :: bool

text \<open>The effects on the rendering surface: a wrapper taken out of the document
  (\<open>remove()\<close> after the exit animation) and a wrapper created for a name.\<close>

datatype effect = Detach string | Create string

text \<open>\<open>indexOf\<close> and \<open>findIndex\<close> with the result \<open>-1\<close>, and \<open>splice(idx, 1)\<close>: a negative
  index counts from the end, so \<open>splice(-1, 1)\<close> removes the last element. The second
  component is the removed element (\<open>None\<close>: nothing was removed, \<open>[0]\<close> is
  \<open>undefined\<close>).\<close>

definition js_indexOf :: "'a list \<Rightarrow> 'a \<Rightarrow> int" where
  "js_indexOf xs x = (case index_in x xs of None \<Rightarrow> -1 | Some k \<Rightarrow> int k)"

definition splice1 :: "'a list \<Rightarrow> int \<Rightarrow> 'a list \<times> 'a option" where
  "splice1 xs idx =
     (let len = int (length xs);
          st = (if idx < 0 then max (len + idx) 0 else min idx len)
      in if st < len then (take (nat st) xs @ drop (nat st + 1) xs, Some (xs ! nat st))
         else (xs, None))"

text \<open>The body of \<open>for (const name of removed)\<close>. \<open>img.classList\<close> throws a \<open>TypeError\<close>
  when no wrapper was spliced out; the roster has been changed by then.\<close>

definition remove_member :: "string \<Rightarrow> roster \<Rightarrow> roster \<times> effect list \<times> error option" where
  "remove_member n r =
     (let nl = fst (splice1 (nameList r) (js_indexOf (nameList r) n));
          sp = splice1 (imgs r) (js_indexOf (imgs r) n);
          r1 = r\<lparr>nameList := nl, imgs := fst sp\<rparr>;
          r2 = (if js_indexOf (left r1) n > -1
                then r1\<lparr>left := fst (splice1 (left r1) (js_indexOf (left r1) n))\<rparr>
                else if js_indexOf (right r1) n > -1
                then r1\<lparr>right := fst (splice1 (right r1) (js_indexOf (right r1) n))\<rparr>
                else r1\<lparr>current := None\<rparr>)
      in case snd sp of
           None \<Rightarrow> (r2, [], Some TypeError)
         | Some w \<Rightarrow> (r2, [Detach w], None))"

fun remove_loop :: "string list \<Rightarrow> roster \<Rightarrow> effect list \<Rightarrow> roster \<times> effect list \<times> error option" where
  "remove_loop [] r es = (r, es, None)"
| "remove_loop (n # ns) r es =
     (case remove_member n r of
        (r', es', Some e) \<Rightarrow> (r', es @ es', Some e)
      | (r', es', None) \<Rightarrow> remove_loop ns r' (es @ es'))"

text \<open>The shrink pass \<open>while (num != -1 && side.length > num) purgatory.push(side.pop())\<close>.
  On an empty side \<open>pop()\<close> changes nothing and the condition stays true (this needs
  \<open>num < -1\<close>): the loop does not return, which is the value \<open>None\<close>.\<close>

partial_function (option) shrink :: "int \<Rightarrow> string list \<Rightarrow> string list \<Rightarrow> (string list \<times> string list) option" where
  "shrink num side purgatory =
     (if num \<noteq> -1 \<and> int (length side) > num
      then (if side = [] then shrink num side purgatory
            else shrink num (butlast side) (purgatory @ [last side]))
      else Some (side, purgatory))"

declare shrink.simps [code]

text \<open>The side-selection chain, written three times in the source: \<open>current\<close> if it is
  unset (falsy), else \<open>left\<close>, else \<open>right\<close>; \<open>None\<close> when no branch is taken.\<close>

definition left_open :: "settings \<Rightarrow> roster \<Rightarrow> bool" where
  "left_open st r =
     ((int (length (left r)) < numLeft st \<or> numLeft st = -1) \<and>
      (length (left r) \<le> length (right r) \<or> int (length (right r)) \<ge> numRight st))"

definition right_open :: "settings \<Rightarrow> roster \<Rightarrow> bool" where
  "right_open st r = (int (length (right r)) < numRight st \<or> numRight st = -1)"

definition place :: "settings \<Rightarrow> string \<Rightarrow> roster \<Rightarrow> roster option" where
  "place st n r =
     (if \<not> truthy (current r) then Some (r\<lparr>current := Some n\<rparr>)
      else if left_open st r then Some (r\<lparr>left := left r @ [n]\<rparr>)
      else if right_open st r then Some (r\<lparr>right := right r @ [n]\<rparr>)
      else None)"

text \<open>The loop \<open>for (const name of added)\<close>. The image lookup \<open>findImage\<close> is an external
  request and is taken to return.\<close>

fun add_loop :: "settings \<Rightarrow> string list \<Rightarrow> roster \<Rightarrow> effect list \<Rightarrow> roster \<times> effect list" where
  "add_loop st [] r es = (r, es)"
| "add_loop st (n # ns) r es =
     (let r1 = r\<lparr>nameList := nameList r @ [n]\<rparr>;
          r2 = (case place st n r1 of Some r' \<Rightarrow> r' | None \<Rightarrow> r1);
          r3 = r2\<lparr>imgs := imgs r2 @ [n]\<rparr>
      in add_loop st ns r3 (es @ [Create n]))"

text \<open>The loop \<open>for (const name of purgatory)\<close>: a name that finds no place has its
  wrapper, if there is one, taken out of the document.\<close>

fun purgatory_loop :: "settings \<Rightarrow> string list \<Rightarrow> roster \<Rightarrow> effect list \<Rightarrow> roster \<times> effect list" where
  "purgatory_loop st [] r es = (r, es)"
| "purgatory_loop st (n # ns) r es =
     (case place st n r of
        Some r' \<Rightarrow> purgatory_loop st ns r' es
      | None \<Rightarrow> purgatory_loop st ns r (if n \<in> set (imgs r) then es @ [Detach n] else es))"

text \<open>The backfill pass. \<open>queue_of\<close> is the filter that builds \<open>queue\<close>; the loop pops from
  the end, so \<open>backfill\<close> takes the queue reversed.\<close>

definition queue_of :: "roster \<Rightarrow> string list" where
  "queue_of r =
     filter (\<lambda>it. js_indexOf (left r) it = -1 \<and> js_indexOf (right r) it = -1 \<and> Some it \<noteq> current r)
       (nameList r)"

definition has_capacity :: "settings \<Rightarrow> roster \<Rightarrow> bool" where
  "has_capacity st r =
     (numLeft st = -1 \<or> numRight st = -1 \<or> int (length (left r)) < numLeft st \<or>
      int (length (right r)) < numRight st \<or> \<not> truthy (current r))"

fun backfill :: "settings \<Rightarrow> string list \<Rightarrow> roster \<Rightarrow> roster" where
  "backfill st [] r = r"
| "backfill st (n # q) r =
     (if has_capacity st r
      then backfill st q (case place st n r of Some r' \<Rightarrow> r' | None \<Rightarrow> r)
      else r)"

text \<open>\<open>updateMembers\<close> from the computation of \<open>removed\<close> on; \<open>names\<close> is the desired
  list computed in the first part of the function. The \<open>catch\<close> block ends the call
  with the roster as the throwing statement left it. The result is the roster and the
  effects of the call.\<close>

definition updateMembers :: "settings \<Rightarrow> string list \<Rightarrow> roster \<Rightarrow> (roster \<times> effect list) option" where
  "updateMembers st names r =
     (if busy r then Some (r, [])
      else
        (let removed = filter (\<lambda>it. js_indexOf names it = -1) (nameList r);
             added = filter (\<lambda>it. js_indexOf (nameList r) it = -1) names
         in case remove_loop removed (r\<lparr>busy := True\<rparr>) [] of
              (r1, e1, Some e) \<Rightarrow> Some (r1\<lparr>busy := False\<rparr>, e1)
            | (r1, e1, None) \<Rightarrow>
                (case shrink (numLeft st) (left r1) [] of
                   None \<Rightarrow> None
                 | Some (l, p1) \<Rightarrow>
                     (case shrink (numRight st) (right r1) p1 of
                        None \<Rightarrow> None
                      | Some (rt, p2) \<Rightarrow>
                          (case add_loop st added (r1\<lparr>left := l, right := rt\<rparr>) e1 of
                             (r3, e3) \<Rightarrow>
                               (case purgatory_loop st p2 r3 e3 of
                                  (r4, e4) \<Rightarrow>
                                    Some ((backfill st (rev (queue_of r4)) r4)\<lparr>busy := False\<rparr>, e4)))))))"

text \<open>\<open>end()\<close> leaves the roster empty.\<close>

definition empty_roster :: roster where
  "empty_roster = \<lparr>nameList = [], left = [], right = [], current = None, imgs = [], busy = False\<rparr>"

section \<open>Order from the chat history\<close>

text \<open>\<open>mesmem\<close> for one message: each member whose pattern (no flag: case-sensitive)
  matches the text, with the \<open>index\<close> of the first match.\<close>

fun mesmem_of :: "string \<Rightarrow> string list \<Rightarrow> (string \<times> nat) list" where
  "mesmem_of txt [] = []"
| "mesmem_of txt (m # ms) =
     (case regex_exec False m txt 0 of
        None \<Rightarrow> mesmem_of txt ms
      | Some (idx, l) \<Rightarrow> (m, idx) # mesmem_of txt ms)"

text \<open>\<open>.filter((it, idx, list) => idx == list.indexOf(it))\<close>.\<close>

definition first_occurrences :: "'a list \<Rightarrow> 'a list" where
  "first_occurrences xs =
     map fst (filter (\<lambda>(it, idx). js_indexOf xs it = int idx) (zip xs [0 ..< length xs]))"

text \<open>\<open>for (const m of mesmem) members.splice(members.indexOf(m[0]), 1)\<close>.\<close>

fun splice_members :: "string list \<Rightarrow> string list \<Rightarrow> string list" where
  "splice_members [] mems = mems"
| "splice_members (m # ms) mems = splice_members ms (fst (splice1 mems (js_indexOf mems m)))"

text \<open>The loop over \<open>mesList\<close>; \<open>sort\<close> is stable, as \<open>sort_key\<close> is.\<close>

fun order_loop :: "message list \<Rightarrow> string list \<Rightarrow> string list \<Rightarrow> string list" where
  "order_loop [] mems ord = ord"
| "order_loop (m # mesList) mems ord =
     (let mesmem = sort_key snd (mesmem_of (mes m) mems)
      in order_loop mesList (splice_members (map fst mesmem) mems)
           (ord @ first_occurrences (map fst mesmem)))"

definition getOrderFromText :: "message list \<Rightarrow> string list \<Rightarrow> string list" where
  "getOrderFromText chat mems =
     order_loop (rev (filter (\<lambda>it. \<not> is_system it \<and> \<not> is_user it) chat)) mems []"

section \<open>Restart guard\<close>

text \<open>
  \<open>debounceAsync(func, timeout)\<close> returns a closure over \<open>timer\<close>, \<open>debouncePromise\<close> and
  \<open>debounceResolver\<close>. Time is explicit: a number of milliseconds. Promises are named by
  the order of their creation. \<open>timer\<close> is the pending timeout, with its due time and the
  arguments its callback captured; \<open>executed\<close> lists the arguments of every call of
  \<open>func\<close> so far; \<open>resolved\<close> pairs a promise with the call of \<open>func\<close> whose result it was
  resolved with.
\<close>

record 'a debounce =
  timer :: "(nat \<times> 'a) option"
  debouncePromise :: "nat option"
  debounceResolver :: "nat option"
  promises :: nat
  executed :: "'a list"
  resolved :: "(nat \<times> nat) list"

text \<open>The closure variables right after \<open>debounceAsync\<close> returned.\<close>

definition debounce_init :: "'a debounce" where
  "debounce_init = \<lparr>timer = None, debouncePromise = None, debounceResolver = None,
                     promises = 0, executed = [], resolved = []\<rparr>"

text \<open>A call of the debounced function at the time \<open>now\<close>: \<open>clearTimeout\<close>, a new promise
  unless one is pending, a new timeout; the result is the promise returned and the new
  closure state.\<close>

definition invoke :: "nat \<Rightarrow> nat \<Rightarrow> 'a \<Rightarrow> 'a debounce \<Rightarrow> nat \<times> 'a debounce" where
  "invoke timeout now args s =
     (let s1 = s\<lparr>timer := None\<rparr>;
          s2 = (case debouncePromise s1 of
                  None \<Rightarrow> s1\<lparr>debouncePromise := Some (promises s1),
                              debounceResolver := Some (promises s1),
                              promises := promises s1 + 1\<rparr>
                | Some p \<Rightarrow> s1);
          s3 = s2\<lparr>timer := Some (now + timeout, args)\<rparr>
      in (the (debouncePromise s3), s3))"

text \<open>The timeout callback, run at its due time on the closure state and on the state
  \<open>w\<close> that \<open>func\<close> works on: \<open>func\<close> is called, its result resolves the promise, and
  \<open>debouncePromise\<close> is cleared.\<close>

definition fire :: "(nat \<Rightarrow> 'a \<Rightarrow> 'w \<Rightarrow> 'w) \<Rightarrow> 'a debounce \<times> 'w \<Rightarrow> 'a debounce \<times> 'w" where
  "fire func sw =
     (case sw of (s, w) \<Rightarrow>
        (case timer s of
           None \<Rightarrow> (s, w)
         | Some (due, args) \<Rightarrow>
             (s\<lparr>timer := None,
                executed := executed s @ [args],
                resolved := (case debounceResolver s of
                               None \<Rightarrow> resolved s
                             | Some p \<Rightarrow> resolved s @ [(p, length (executed s))]),
                debouncePromise := None\<rparr>,
              func due args w)))"

text \<open>
  The clock reaches \<open>now\<close>. A callback runs at its due time and never before it. \<open>others\<close>
  runs the timeouts that \<open>func\<close> itself has set and that are due. Timeouts due at the same
  time run in the order in which they were set; a timeout of \<open>func\<close> that is pending
  together with the debounce timeout is the older one (the debounce timeout was set by a
  call made after \<open>func\<close> ran), so \<open>others due\<close> comes before the debounce callback.
\<close>

definition advance ::
  "(nat \<Rightarrow> 'a \<Rightarrow> 'w \<Rightarrow> 'w) \<Rightarrow> (nat \<Rightarrow> 'w \<Rightarrow> 'w) \<Rightarrow> nat \<Rightarrow> 'a debounce \<times> 'w \<Rightarrow> 'a debounce \<times> 'w" where
  "advance func others now sw =
     (case sw of (s, w) \<Rightarrow>
        (case timer s of
           None \<Rightarrow> (s, others now w)
         | Some (due, args) \<Rightarrow>
             if due \<le> now
             then (case fire func (s, others due w) of (s1, w1) \<Rightarrow> (s1, others now w1))
             else (s, others now w)))"

text \<open>A series of calls, each at its time, from the earliest on: the promises returned
  and the final state.\<close>

fun run ::
  "(nat \<Rightarrow> 'a \<Rightarrow> 'w \<Rightarrow> 'w) \<Rightarrow> (nat \<Rightarrow> 'w \<Rightarrow> 'w) \<Rightarrow> nat \<Rightarrow> (nat \<times> 'a) list \<Rightarrow>
     'a debounce \<times> 'w \<Rightarrow> nat list \<times> 'a debounce \<times> 'w" where
  "run func others timeout [] sw = ([], sw)"
| "run func others timeout ((t, args) # cs) sw =
     (case advance func others t sw of
        (s, w) \<Rightarrow>
          (case invoke timeout t args s of
             (p, s1) \<Rightarrow>
               (case run func others timeout cs (s1, w) of (ps, sw2) \<Rightarrow> (p # ps, sw2))))"

text \<open>
  The function wrapped for \<open>restart\<close>. Up to its first \<open>await\<close> (\<open>restart_enter\<close>) it returns
  at once when \<open>restarting\<close> is set; else it sets the flag, calls \<open>end()\<close> and starts the
  delay of \<open>Math.max(550, settings.transition + 150)\<close> milliseconds. When the delay is over
  (\<open>restart_leave\<close>) it calls \<open>start()\<close>, which has no \<open>await\<close> of its own, and clears the
  flag. \<open>sequences\<close> counts the sequences begun; \<open>resume\<close> is the due time of the delay.
  \<open>end()\<close> and \<open>start()\<close> are taken to return; what they do to the roster and the document
  is left out.
\<close>

record engine =
  restarting :: bool
  sequences :: nat
  resume :: "nat option"

definition restart_wait :: "nat \<Rightarrow> nat" where
  "restart_wait transition = max 550 (transition + 150)"

definition restart_enter :: "nat \<Rightarrow> nat \<Rightarrow> unit \<Rightarrow> engine \<Rightarrow> engine" where
  "restart_enter transition now args e =
     (if restarting e then e
      else e\<lparr>restarting := True, sequences := sequences e + 1,
             resume := Some (now + restart_wait transition)\<rparr>)"

definition restart_leave :: "engine \<Rightarrow> engine" where
  "restart_leave e = e\<lparr>restarting := False, resume := None\<rparr>"

text \<open>The engine's own timeout: the delay of a sequence, when it is due.\<close>

definition engine_advance :: "nat \<Rightarrow> engine \<Rightarrow> engine" where
  "engine_advance now e =
     (case resume e of
        None \<Rightarrow> e
      | Some due \<Rightarrow> if due \<le> now then restart_leave e else e)"

section \<open>Notions used to state the properties\<close>

text \<open>A span covers the positions from \<open>start\<close> up to, not including, \<open>end\<close>;
  \<open>cover_count k\<close> is the number of spans of a list that cover position \<open>k\<close>.\<close>

definition covers :: "span \<Rightarrow> nat \<Rightarrow> bool" where
  "covers s k = (start s \<le> k \<and> k < end' s)"

definition cover_count :: "nat \<Rightarrow> span list \<Rightarrow> nat" where
  "cover_count k spans = length (filter (\<lambda>s. covers s k) spans)"

text \<open>Ascending spans: each span ends before every later span starts.\<close>

definition ascending :: "span list \<Rightarrow> bool" where
  "ascending spans = sorted_wrt (\<lambda>a b. end' a \<le> start b) spans"

text \<open>Non-empty spans that follow each other from position \<open>c\<close> on.\<close>

fun chain :: "nat \<Rightarrow> span list \<Rightarrow> bool" where
  "chain c [] = True"
| "chain c (b # bs) = (c \<le> start b \<and> start b < end' b \<and> chain (end' b) bs)"

text \<open>Calls within the debounce window: each call comes after the previous one, at time
  \<open>t\<close>, and before \<open>t + timeout\<close>. A closure is idle when no timeout and no promise is
  pending. \<open>others_through\<close> runs the other timeouts up to the time of each call in turn.\<close>

fun within_window :: "nat \<Rightarrow> nat \<Rightarrow> (nat \<times> 'a) list \<Rightarrow> bool" where
  "within_window timeout t [] = True"
| "within_window timeout t ((t', args) # cs) =
     (t \<le> t' \<and> t' < t + timeout \<and> within_window timeout t' cs)"

definition idle :: "'a debounce \<Rightarrow> bool" where
  "idle s = (timer s = None \<and> debouncePromise s = None)"

fun others_through :: "(nat \<Rightarrow> 'w \<Rightarrow> 'w) \<Rightarrow> (nat \<times> 'a) list \<Rightarrow> 'w \<Rightarrow> 'w" where
  "others_through others [] w = w"
| "others_through others ((t, args) # cs) w = others_through others cs (others t w)"

text \<open>Notions for the roster: a name is placed when a side or \<open>current\<close> holds it; a
  roster is \<open>good\<close> when no side and not \<open>current\<close> holds the empty string (which the
  code takes for an unset \<open>current\<close>); \<open>cap_ok\<close> bounds the sides by the capacities;
  \<open>settled\<close> describes a roster on which a refresh to \<open>names\<close> has nothing to do;
  \<open>removable ns xs\<close> says the names \<open>ns\<close> can be taken out of \<open>xs\<close> one after the other.\<close>

definition placed :: "roster \<Rightarrow> string \<Rightarrow> bool" where
  "placed r n = (n \<in> set (left r) \<or> n \<in> set (right r) \<or> current r = Some n)"

definition good :: "roster \<Rightarrow> bool" where
  "good r = ([] \<notin> set (left r) \<and> [] \<notin> set (right r) \<and> current r \<noteq> Some [])"

definition cap_ok :: "settings \<Rightarrow> roster \<Rightarrow> bool" where
  "cap_ok st r =
     ((numLeft st = -1 \<or> int (length (left r)) \<le> numLeft st) \<and>
      (numRight st = -1 \<or> int (length (right r)) \<le> numRight st))"

definition settled :: "settings \<Rightarrow> string list \<Rightarrow> roster \<Rightarrow> bool" where
  "settled st names r =
     (\<not> busy r \<and> set (nameList r) = set names \<and> cap_ok st r \<and>
      - 1 \<le> numLeft st \<and> - 1 \<le> numRight st \<and>
      (queue_of r = [] \<or> \<not> has_capacity st r))"

fun removable :: "'a list \<Rightarrow> 'a list \<Rightarrow> bool" where
  "removable [] xs = True"
| "removable (n # ns) xs = (n \<in> set xs \<and> removable ns (remove1 n xs))"

text \<open>Notions for the order from the history: \<open>precedes a b xs\<close> says that \<open>a\<close> occurs
  in \<open>xs\<close> with no \<open>b\<close> before its first occurrence; \<open>first_match nm t\<close> is the \<open>index\<close> of
  the first match of the case-sensitive pattern for \<open>nm\<close> in \<open>t\<close>.\<close>

fun precedes :: "'a \<Rightarrow> 'a \<Rightarrow> 'a list \<Rightarrow> bool" where
  "precedes a b [] = False"
| "precedes a b (x # xs) = (if x = a then True else if x = b then False else precedes a b xs)"

definition first_match :: "string \<Rightarrow> string \<Rightarrow> nat option" where
  "first_match nm t = map_option fst (regex_exec False nm t 0)"

text \<open>
  Written from the specification's words, for comparison with the matcher above: an
  occurrence of the name at position \<open>p\<close> is the name itself (case-insensitively),
  preceded and followed by a non-word character or the boundary of the text.
\<close>

definition spec_occurrence_at :: "string \<Rightarrow> string \<Rightarrow> nat \<Rightarrow> bool" where
  "spec_occurrence_at nm s p =
     (p + length nm \<le> length s \<and> match_literal True nm (drop p s) \<and>
      (p = 0 \<or> \<not> is_word_char (s ! (p - 1))) \<and>
      (p + length nm = length s \<or> \<not> is_word_char (s ! (p + length nm))))"

definition spec_word_occurrences :: "string \<Rightarrow> string \<Rightarrow> nat list" where
  "spec_word_occurrences nm s = filter (spec_occurrence_at nm s) [0 ..< length s + 1]"

section \<open>Properties of the span scanner\<close>

lemma index_in_Some: "index_in c xs = Some k \<Longrightarrow> k < length xs \<and> xs ! k = c"
  by (induction xs arbitrary: k) (auto split: if_splits)

lemma indexOf_Some: "indexOf xs c from = Some j \<Longrightarrow> from \<le> j \<and> j < length xs \<and> xs ! j = c"
  by (auto simp: indexOf_def dest!: index_in_Some)

lemma chain_weaken: "chain c bs \<Longrightarrow> c' \<le> c \<Longrightarrow> chain c' bs"
  by (cases bs) auto

lemma cover_count_append [simp]: "cover_count k (xs @ ys) = cover_count k xs + cover_count k ys"
  by (simp add: cover_count_def)

lemma cover_count_Nil [simp]: "cover_count k [] = 0"
  by (simp add: cover_count_def)

lemma cover_count_Cons [simp]:
  "cover_count k (s # ss) = (if start s \<le> k \<and> k < end' s then 1 else 0) + cover_count k ss"
  by (simp add: cover_count_def covers_def)

lemma parse_chain:
  "chain i (parseBracketSpans_from t i) \<and>
   (\<forall>b \<in> set (parseBracketSpans_from t i). end' b \<le> length t)"
proof (induction t i rule: parseBracketSpans_from.induct)
  case (1 t i)
  note unfold = parseBracketSpans_from.simps [of t i]
  show ?case
  proof (cases "length t \<le> i")
    case True
    then show ?thesis by (simp add: unfold)
  next
    case False
    note in_range = this
    show ?thesis
    proof (cases "t ! i \<in> tokens")
      case False
      with in_range 1(1) show ?thesis
        by (auto simp: unfold intro: chain_weaken [where c = "i + 1"])
    next
      case True
      show ?thesis
      proof (cases "indexOf t (t ! i) (i + 1)")
        case None
        with in_range True show ?thesis by (simp add: unfold)
      next
        case (Some j)
        from indexOf_Some [OF Some] have "i + 1 \<le> j" "j < length t" by auto
        with in_range True Some 1(2) [OF in_range _ Some] show ?thesis
          by (auto simp: unfold)
      qed
    qed
  qed
qed

lemma complement_count:
  assumes "chain c bs" "\<forall>b \<in> set bs. end' b \<le> n" "c \<le> n"
    and "complement_loop bs c acc = (cur, sp)"
  shows "cover_count k sp + cover_count k bs +
           cover_count k (if cur < n then [\<lparr>start = cur, end' = n\<rparr>] else []) =
         cover_count k acc + (if c \<le> k \<and> k < n then 1 else 0)"
  using assms
proof (induction bs arbitrary: c acc)
  case Nil
  then show ?case by auto
next
  case (Cons b bs)
  let ?acc = "if start b > c then acc @ [\<lparr>start = c, end' = start b\<rparr>] else acc"
  from Cons.prems have b: "c \<le> start b" "start b < end' b" "end' b \<le> n" and ch: "chain (end' b) bs"
    by auto
  then have mx: "max c (end' b) = end' b" by simp
  from Cons.prems(4) mx have loop: "complement_loop bs (end' b) ?acc = (cur, sp)"
    by simp
  from Cons.IH [OF ch _ b(3) loop] Cons.prems(2)
  have "cover_count k sp + cover_count k bs +
           cover_count k (if cur < n then [\<lparr>start = cur, end' = n\<rparr>] else []) =
         cover_count k ?acc + (if end' b \<le> k \<and> k < n then 1 else 0)"
    by simp
  with b show ?case by (auto split: if_splits)
qed

lemma complement_cursor:
  assumes "chain c bs" "\<forall>b \<in> set bs. end' b \<le> n" "c \<le> n"
    and "complement_loop bs c acc = (cur, sp)"
  shows "cur \<le> n"
  using assms
proof (induction bs arbitrary: c acc)
  case Nil
  then show ?case by simp
next
  case (Cons b bs)
  then show ?case by (auto simp: max_def split: if_splits)
qed

lemma chain_nonempty: "chain c bs \<Longrightarrow> \<forall>b \<in> set bs. start b \<le> end' b"
  by (induction bs arbitrary: c) auto

lemma complement_sorted:
  assumes "chain c bs" "ascending acc" "\<forall>s \<in> set acc. start s \<le> end' s \<and> end' s \<le> c"
    and "complement_loop bs c acc = (cur, sp)"
  shows "ascending sp \<and> (\<forall>s \<in> set sp. start s \<le> end' s \<and> end' s \<le> cur) \<and> c \<le> cur"
  using assms
proof (induction bs arbitrary: c acc)
  case Nil
  then show ?case by auto
next
  case (Cons b bs)
  let ?acc = "if start b > c then acc @ [\<lparr>start = c, end' = start b\<rparr>] else acc"
  from Cons.prems have b: "c \<le> start b" "start b < end' b" and ch: "chain (end' b) bs"
    by auto
  then have mx: "max c (end' b) = end' b" by simp
  from Cons.prems(4) mx have loop: "complement_loop bs (end' b) ?acc = (cur, sp)"
    by simp
  have a1: "ascending ?acc"
    using Cons.prems(2,3) by (auto simp: ascending_def sorted_wrt_append)
  have a2: "\<forall>s \<in> set ?acc. start s \<le> end' s \<and> end' s \<le> end' b"
    using Cons.prems(3) b by auto
  from Cons.IH [OF ch a1 a2 loop] b show ?case by auto
qed

text \<open>
  Claim C5: for every text \<open>T\<close> the spans of \<open>getNonBracketSpans T\<close> are ascending and
  pairwise disjoint (each ends before the next starts), every span lies within the text,
  and every position below \<open>length T\<close> is covered by exactly one span of the plain spans
  and the bracket spans taken together.
\<close>

theorem nonbracket_spans_partition:
  "ascending (getNonBracketSpans T) \<and>
   (\<forall>s \<in> set (getNonBracketSpans T @ parseBracketSpans T). start s \<le> end' s \<and> end' s \<le> length T) \<and>
   (\<forall>k. k < length T \<longrightarrow> cover_count k (getNonBracketSpans T @ parseBracketSpans T) = 1)"
proof (cases "parseBracketSpans T = []")
  case True
  then show ?thesis
    by (simp add: getNonBracketSpans_def ascending_def)
next
  case False
  obtain cur sp where loop: "complement_loop (parseBracketSpans T) 0 [] = (cur, sp)"
    by (cases "complement_loop (parseBracketSpans T) 0 []") auto
  from parse_chain [of 0 T] have ch: "chain 0 (parseBracketSpans T)"
    and bd: "\<forall>b \<in> set (parseBracketSpans T). end' b \<le> length T"
    by (simp_all add: parseBracketSpans_def)
  have nb: "getNonBracketSpans T =
      (if cur < length T then sp @ [\<lparr>start = cur, end' = length T\<rparr>] else sp)"
    using False loop by (simp add: getNonBracketSpans_def)
  from complement_sorted [OF ch _ _ loop]
  have s1: "ascending sp" and s2: "\<forall>s \<in> set sp. start s \<le> end' s \<and> end' s \<le> cur"
    by (simp_all add: ascending_def)
  from complement_cursor [OF ch bd _ loop] have cur: "cur \<le> length T"
    by simp
  have asc: "ascending (getNonBracketSpans T)"
    using s1 s2 by (auto simp: nb ascending_def sorted_wrt_append)
  have bounds: "\<forall>s \<in> set (getNonBracketSpans T @ parseBracketSpans T).
      start s \<le> end' s \<and> end' s \<le> length T"
    using s2 cur bd chain_nonempty [OF ch] by (auto simp: nb)
  have cnt: "\<forall>k. k < length T \<longrightarrow> cover_count k (getNonBracketSpans T @ parseBracketSpans T) = 1"
  proof (intro allI impI)
    fix k assume "k < length T"
    with complement_count [OF ch bd _ loop, where k = k]
    show "cover_count k (getNonBracketSpans T @ parseBracketSpans T) = 1"
      by (simp add: nb split: if_splits)
  qed
  show ?thesis
    by (rule conjI [OF asc conjI [OF bounds cnt]])
qed

theorem nonbracket_spans_partition_witness:
  "ascending (getNonBracketSpans ''a*b*c'') \<and>
   start \<lparr>start = 1, end' = 4\<rparr> \<le> end' \<lparr>start = 1, end' = 4\<rparr> \<and>
   end' \<lparr>start = 1, end' = 4\<rparr> \<le> length ''a*b*c'' \<and>
   cover_count 3 (getNonBracketSpans ''a*b*c'' @ parseBracketSpans ''a*b*c'') = 1"
proof -
  have m: "\<lparr>start = 1, end' = 4\<rparr> \<in> set (getNonBracketSpans ''a*b*c'' @ parseBracketSpans ''a*b*c'')"
    by code_simp
  have k: "(3::nat) < length ''a*b*c''"
    by simp
  from nonbracket_spans_partition [of "''a*b*c''"] m k show ?thesis
    by blast
qed

section \<open>Properties of the matcher\<close>

lemma regex_exec_bounds:
  "regex_exec ic nm s k = Some (p, l) \<Longrightarrow> k \<le> p \<and> p \<le> length s"
proof (induction ic nm s k rule: regex_exec.induct)
  case (1 ic nm s k)
  show ?case
  proof (cases "length s < k")
    case True
    with 1(2) show ?thesis by (simp add: regex_exec.simps [of ic nm s k])
  next
    case False
    show ?thesis
    proof (cases "match_at ic nm s k")
      case None
      with False 1(2) have "regex_exec ic nm s (k + 1) = Some (p, l)"
        by (simp add: regex_exec.simps [of ic nm s k])
      from 1(1) [OF False None this] show ?thesis by simp
    next
      case (Some l')
      with False 1(2) show ?thesis
        by (simp add: regex_exec.simps [of ic nm s k])
    qed
  qed
qed

lemma matchAll_unguarded:
  "matchAll nm s k =
     (case regex_exec True nm s k of
        None \<Rightarrow> []
      | Some (p, l) \<Rightarrow> p # matchAll nm s (if l = 0 then p + 1 else p + l))"
proof (cases "regex_exec True nm s k")
  case None
  then show ?thesis by (simp add: matchAll.simps [of nm s k])
next
  case (Some pl)
  obtain p l where pl: "pl = (p, l)" by (cases pl)
  from regex_exec_bounds [of True nm s k p l] Some pl have "k \<le> p" "p \<le> length s"
    by simp_all
  with Some pl show ?thesis
    by (simp add: matchAll.simps [of nm s k])
qed

lemma canonicalize_lower:
  "toLowerCase_char a = toLowerCase_char b \<Longrightarrow> canonicalize a = canonicalize b"
proof -
  assume eq: "toLowerCase_char a = toLowerCase_char b"
  have lt: "(of_char c :: nat) < 256" for c :: char
    by (rule nat_of_char_less_256)
  define x where "x = (of_char a :: nat)"
  define y where "y = (of_char b :: nat)"
  have xy: "x < 256" "y < 256" by (simp_all add: x_def y_def lt)
  have ca: "a = char_of x" and cb: "b = char_of y"
    by (simp_all add: x_def y_def)
  have low: "(of_char (toLowerCase_char (char_of n)) :: nat) =
      (if (65 \<le> n \<and> n \<le> 90) \<or> (192 \<le> n \<and> n \<le> 222 \<and> n \<noteq> 215) then n + 32 else n)"
    if "n < 256" for n
    using that by (auto simp: toLowerCase_char_def Let_def)
  from eq have "(of_char (toLowerCase_char (char_of x)) :: nat) = of_char (toLowerCase_char (char_of y))"
    by (simp add: ca cb)
  then have *: "(if (65 \<le> x \<and> x \<le> 90) \<or> (192 \<le> x \<and> x \<le> 222 \<and> x \<noteq> 215) then x + 32 else x) =
      (if (65 \<le> y \<and> y \<le> 90) \<or> (192 \<le> y \<and> y \<le> 222 \<and> y \<noteq> 215) then y + 32 else y)"
    using xy by (simp only: low)
  have can: "(of_char (canonicalize (char_of n)) :: nat) =
      (if (97 \<le> n \<and> n \<le> 122) \<or> (224 \<le> n \<and> n \<le> 254 \<and> n \<noteq> 247) then n - 32 else n)"
    if "n < 256" for n
    using that by (auto simp: canonicalize_def Let_def)
  have "(of_char (canonicalize (char_of x)) :: nat) = of_char (canonicalize (char_of y))"
    using * xy unfolding can [OF xy(1)] can [OF xy(2)]
    by (auto split: if_splits)
  then show ?thesis
    unfolding ca cb by (simp only: of_char_eq_iff)
qed

lemma match_literal_cached:
  "toLowerCase n1 = toLowerCase n2 \<Longrightarrow> match_literal True n1 s = match_literal True n2 s"
proof (induction n1 arbitrary: n2 s)
  case Nil
  then show ?case by (simp add: toLowerCase_def)
next
  case (Cons c cs)
  then obtain d ds where n2: "n2 = d # ds" and cd: "toLowerCase_char c = toLowerCase_char d"
    and rest: "toLowerCase cs = toLowerCase ds"
    by (cases n2) (auto simp: toLowerCase_def)
  from canonicalize_lower [OF cd] have "char_matches True c x = char_matches True d x" for x
    by (simp add: char_matches_def)
  with Cons.IH [OF rest] show ?case
    unfolding n2 by (cases s) auto
qed

lemma match_at_cached:
  assumes "toLowerCase n1 = toLowerCase n2"
  shows "match_at True n1 s p = match_at True n2 s p"
proof -
  from assms have len: "length n1 = length n2"
    by (metis length_map toLowerCase_def)
  have "match_name_closer True n1 s q = match_name_closer True n2 s q" for q
    unfolding match_name_closer_def len match_literal_cached [OF assms] ..
  then have "match_name_closer True n1 s = match_name_closer True n2 s"
    by (rule ext)
  then show ?thesis
    unfolding match_at_def by (simp only:)
qed

section \<open>Properties of the roster engine\<close>

lemmas roster_defs =
  updateMembers_def empty_roster_def js_indexOf_def splice1_def remove_member_def place_def
  left_open_def right_open_def truthy_def queue_of_def has_capacity_def shrink.simps

text \<open>
  Claim C1, as stated: with \<open>numLeft = 1\<close> and \<open>numRight = 1\<close>, from the empty roster, a
  refresh that adds A, B, C gives \<open>left = [A]\<close>, \<open>right = [B]\<close> and leaves C unassigned.
  The code does otherwise: the first added name becomes \<open>current\<close>, so B goes left and C
  goes right, and C is assigned.
\<close>

theorem refresh_abc_counterexample:
  "updateMembers \<lparr>numLeft = 1, numRight = 1\<rparr> [''A'', ''B'', ''C''] empty_roster =
     Some (\<lparr>nameList = [''A'', ''B'', ''C''], left = [''B''], right = [''C''],
            current = Some ''A'', imgs = [''A'', ''B'', ''C''], busy = False\<rparr>,
           [Create ''A'', Create ''B'', Create ''C''])"
  by code_simp

text \<open>
  Claim C1, amended: with \<open>numLeft = 1\<close> and \<open>numRight = 1\<close>, from the empty roster, a
  refresh that adds four distinct names a, b, c, d in that order (a not empty) makes a the
  \<open>current\<close> name, gives \<open>left = [b]\<close> and \<open>right = [c]\<close>, and leaves d unassigned: d is
  in \<open>nameList\<close>, on neither side and not \<open>current\<close>. Once capacity frees, here by a
  refresh whose desired list no longer has b, d is placed on the freed side.
\<close>

theorem refresh_capacity_one_one:
  assumes "distinct [a, b, c, d]" and "a \<noteq> []"
  shows "updateMembers \<lparr>numLeft = 1, numRight = 1\<rparr> [a, b, c, d] empty_roster =
           Some (\<lparr>nameList = [a, b, c, d], left = [b], right = [c], current = Some a,
                  imgs = [a, b, c, d], busy = False\<rparr>,
                 [Create a, Create b, Create c, Create d])
         \<and>
         updateMembers \<lparr>numLeft = 1, numRight = 1\<rparr> [a, c, d]
           \<lparr>nameList = [a, b, c, d], left = [b], right = [c], current = Some a,
            imgs = [a, b, c, d], busy = False\<rparr> =
           Some (\<lparr>nameList = [a, c, d], left = [d], right = [c], current = Some a,
                  imgs = [a, c, d], busy = False\<rparr>,
                 [Detach b])"
  using assms by (auto simp add: roster_defs)

theorem refresh_capacity_one_one_witness:
  "distinct [''A'', ''B'', ''C'', ''D''] \<and> ''A'' \<noteq> [] \<and>
   updateMembers \<lparr>numLeft = 1, numRight = 1\<rparr> [''A'', ''B'', ''C'', ''D''] empty_roster =
     Some (\<lparr>nameList = [''A'', ''B'', ''C'', ''D''], left = [''B''], right = [''C''],
            current = Some ''A'', imgs = [''A'', ''B'', ''C'', ''D''], busy = False\<rparr>,
           [Create ''A'', Create ''B'', Create ''C'', Create ''D''])
   \<and>
   updateMembers \<lparr>numLeft = 1, numRight = 1\<rparr> [''A'', ''C'', ''D'']
     \<lparr>nameList = [''A'', ''B'', ''C'', ''D''], left = [''B''], right = [''C''],
      current = Some ''A'', imgs = [''A'', ''B'', ''C'', ''D''], busy = False\<rparr> =
     Some (\<lparr>nameList = [''A'', ''C'', ''D''], left = [''D''], right = [''C''],
            current = Some ''A'', imgs = [''A'', ''C'', ''D''], busy = False\<rparr>,
           [Detach ''B''])"
proof -
  have d: "distinct [''A'', ''B'', ''C'', ''D'']" and n: "''A'' \<noteq> []"
    by simp_all
  from refresh_capacity_one_one [OF d n] d n show ?thesis
    by blast
qed

lemma index_in_None: "index_in c xs = None \<longleftrightarrow> c \<notin> set xs"
  by (induction xs) auto

lemma index_in_remove1:
  "index_in c xs = Some k \<Longrightarrow> take k xs @ drop (Suc k) xs = remove1 c xs \<and> xs ! k = c \<and> k < length xs"
  by (induction xs arbitrary: k) (auto split: if_splits)

lemma js_indexOf_absent [simp]: "js_indexOf xs x = -1 \<longleftrightarrow> x \<notin> set xs"
  using index_in_None [of x xs] by (cases "index_in x xs") (auto simp: js_indexOf_def)

lemma js_indexOf_present [simp]: "- 1 < js_indexOf xs x \<longleftrightarrow> x \<in> set xs"
  using index_in_None [of x xs] by (cases "index_in x xs") (auto simp: js_indexOf_def)

lemma splice1_indexOf:
  "x \<in> set xs \<Longrightarrow> splice1 xs (js_indexOf xs x) = (remove1 x xs, Some x)"
proof -
  assume "x \<in> set xs"
  then obtain k where k: "index_in x xs = Some k"
    by (cases "index_in x xs") (auto simp: index_in_None)
  from index_in_remove1 [OF k] k show ?thesis
    by (auto simp: splice1_def js_indexOf_def Let_def)
qed

lemma removable_Cons: "removable ns xs \<Longrightarrow> x \<notin> set ns \<Longrightarrow> removable ns (x # xs)"
  by (induction ns arbitrary: xs) auto

lemma removable_filter: "removable (filter P xs) xs"
  by (induction xs) (auto intro: removable_Cons)

lemma fold_remove1_Cons: "x \<notin> set ns \<Longrightarrow> fold remove1 ns (x # xs) = x # fold remove1 ns xs"
  by (induction ns arbitrary: xs) auto

lemma fold_remove1_filter: "fold remove1 (filter P xs) xs = filter (\<lambda>x. \<not> P x) xs"
  by (induction xs) (auto simp: fold_remove1_Cons)

lemma remove_member_present:
  assumes "n \<in> set (nameList r)" and "imgs r = nameList r"
  shows "\<exists>r'. remove_member n r = (r', [Detach n], None) \<and>
           nameList r' = remove1 n (nameList r) \<and> imgs r' = nameList r' \<and>
           set (left r') \<subseteq> set (left r) \<and> set (right r') \<subseteq> set (right r) \<and>
           (current r' = current r \<or> current r' = None) \<and> busy r' = busy r"
proof -
  have nl: "splice1 (nameList r) (js_indexOf (nameList r) n) = (remove1 n (nameList r), Some n)"
    using assms(1) by (rule splice1_indexOf)
  have im: "splice1 (imgs r) (js_indexOf (imgs r) n) = (remove1 n (nameList r), Some n)"
    using assms by (simp add: splice1_indexOf)
  define r1 where "r1 = r\<lparr>nameList := remove1 n (nameList r), imgs := remove1 n (nameList r)\<rparr>"
  define r2 where "r2 = (if js_indexOf (left r1) n > -1
                then r1\<lparr>left := fst (splice1 (left r1) (js_indexOf (left r1) n))\<rparr>
                else if js_indexOf (right r1) n > -1
                then r1\<lparr>right := fst (splice1 (right r1) (js_indexOf (right r1) n))\<rparr>
                else r1\<lparr>current := None\<rparr>)"
  have rm: "remove_member n r = (r2, [Detach n], None)"
    by (simp add: remove_member_def Let_def nl im r1_def r2_def)
  have r2: "r2 = (if n \<in> set (left r) then r1\<lparr>left := remove1 n (left r)\<rparr>
                  else if n \<in> set (right r) then r1\<lparr>right := remove1 n (right r)\<rparr>
                  else r1\<lparr>current := None\<rparr>)"
    by (simp add: r2_def r1_def splice1_indexOf)
  have "nameList r2 = remove1 n (nameList r)" "imgs r2 = nameList r2" "busy r2 = busy r"
    by (simp_all add: r2 r1_def)
  moreover have "set (left r2) \<subseteq> set (left r)" "set (right r2) \<subseteq> set (right r)"
    using set_remove1_subset [of n "left r"] set_remove1_subset [of n "right r"]
    by (simp_all add: r2 r1_def)
  moreover have "current r2 = current r \<or> current r2 = None"
    by (simp add: r2 r1_def)
  ultimately show ?thesis using rm by blast
qed

lemma remove_loop_present:
  assumes "removable ns (nameList r)" and "imgs r = nameList r"
  shows "\<exists>r' es'. remove_loop ns r es = (r', es', None) \<and>
           nameList r' = fold remove1 ns (nameList r) \<and> imgs r' = nameList r' \<and>
           set (left r') \<subseteq> set (left r) \<and> set (right r') \<subseteq> set (right r) \<and>
           (current r' = current r \<or> current r' = None) \<and> busy r' = busy r \<and>
           (ns = [] \<longrightarrow> r' = r \<and> es' = es)"
  using assms
proof (induction ns arbitrary: r es)
  case Nil
  then show ?case by simp
next
  case (Cons n ns)
  from Cons.prems have n: "n \<in> set (nameList r)" and rest: "removable ns (remove1 n (nameList r))"
    by simp_all
  from remove_member_present [OF n Cons.prems(2)] obtain r1 where
    r1: "remove_member n r = (r1, [Detach n], None)"
      "nameList r1 = remove1 n (nameList r)" "imgs r1 = nameList r1"
      "set (left r1) \<subseteq> set (left r)" "set (right r1) \<subseteq> set (right r)"
      "current r1 = current r \<or> current r1 = None" "busy r1 = busy r"
    by blast
  from rest r1(2) have "removable ns (nameList r1)" by simp
  from Cons.IH [OF this r1(3), of "es @ [Detach n]"] obtain r' es' where
    r': "remove_loop ns r1 (es @ [Detach n]) = (r', es', None)"
      "nameList r' = fold remove1 ns (nameList r1)" "imgs r' = nameList r'"
      "set (left r') \<subseteq> set (left r1)" "set (right r') \<subseteq> set (right r1)"
      "current r' = current r1 \<or> current r' = None" "busy r' = busy r1"
    by blast
  have "remove_loop (n # ns) r es = (r', es', None)"
    using r1(1) r'(1) by simp
  moreover have "nameList r' = fold remove1 (n # ns) (nameList r)"
    using r'(2) r1(2) by simp
  moreover have "set (left r') \<subseteq> set (left r)" "set (right r') \<subseteq> set (right r)"
    using r'(4,5) r1(4,5) by blast+
  moreover have "current r' = current r \<or> current r' = None"
    using r'(6) r1(6) by auto
  moreover have "busy r' = busy r"
    using r'(7) r1(7) by simp
  ultimately show ?case using r'(3) by blast
qed

lemma shrink_closed:
  assumes "- 1 \<le> num"
  shows "shrink num side p =
           (if num = -1 then Some (side, p)
            else Some (take (nat num) side, p @ rev (drop (nat num) side)))"
proof (induction side arbitrary: p rule: rev_induct)
  case Nil
  show ?case using assms by (subst shrink.simps) auto
next
  case (snoc x xs)
  show ?case
  proof (cases "num \<noteq> -1 \<and> int (length (xs @ [x])) > num")
    case True
    then have "shrink num (xs @ [x]) p = shrink num xs (p @ [x])"
      by (subst shrink.simps) auto
    with snoc [of "p @ [x]"] True show ?thesis
      by auto
  next
    case False
    then have "shrink num (xs @ [x]) p = Some (xs @ [x], p)"
      by (subst shrink.simps) auto
    with False show ?thesis by auto
  qed
qed


lemma truthy_good: "good r \<Longrightarrow> truthy (current r) \<longleftrightarrow> current r \<noteq> None"
  by (cases "current r") (auto simp: truthy_def good_def)

lemma capacity_opens:
  "has_capacity st r \<Longrightarrow> truthy (current r) \<Longrightarrow> left_open st r \<or> right_open st r"
  by (auto simp: has_capacity_def left_open_def right_open_def)

lemma place_Some:
  assumes "place st n r = Some r'" and "n \<noteq> []" and "good r" and "cap_ok st r"
  shows "good r'" and "cap_ok st r'" and "nameList r' = nameList r" and "imgs r' = imgs r"
    and "busy r' = busy r" and "placed r' n" and "\<forall>x. placed r x \<longrightarrow> placed r' x"
  using assms truthy_good [OF assms(3)]
  by (auto simp: place_def good_def cap_ok_def placed_def left_open_def right_open_def
      split: if_splits)

lemma place_None: "place st n r = None \<Longrightarrow> \<not> has_capacity st r"
  using capacity_opens [of st r]
  by (auto simp: place_def has_capacity_def split: if_splits)

lemma add_loop_inv:
  assumes "[] \<notin> set ns" and "good r" and "cap_ok st r"
  shows "\<exists>r' es'. add_loop st ns r es = (r', es') \<and> good r' \<and> cap_ok st r' \<and>
           nameList r' = nameList r @ ns \<and> imgs r' = imgs r @ ns \<and> busy r' = busy r \<and>
           (ns = [] \<longrightarrow> r' = r \<and> es' = es)"
  using assms
proof (induction ns arbitrary: r es)
  case Nil
  then show ?case by simp
next
  case (Cons n ns)
  define r1 where "r1 = r\<lparr>nameList := nameList r @ [n]\<rparr>"
  define r2 where "r2 = (case place st n r1 of Some r' \<Rightarrow> r' | None \<Rightarrow> r1)"
  define r3 where "r3 = r2\<lparr>imgs := imgs r2 @ [n]\<rparr>"
  from Cons.prems have n: "n \<noteq> []" and ns: "[] \<notin> set ns" by auto
  have g1: "good r1" "cap_ok st r1"
    using Cons.prems by (simp_all add: r1_def good_def cap_ok_def)
  have g2: "good r2 \<and> cap_ok st r2 \<and> nameList r2 = nameList r1 \<and> imgs r2 = imgs r1 \<and> busy r2 = busy r1"
  proof (cases "place st n r1")
    case None
    then show ?thesis using g1 by (simp add: r2_def)
  next
    case (Some r')
    from place_Some [OF Some n g1] Some show ?thesis by (simp add: r2_def)
  qed
  then have g3: "good r3" "cap_ok st r3" "nameList r3 = nameList r @ [n]"
    "imgs r3 = imgs r @ [n]" "busy r3 = busy r"
    by (simp_all add: r3_def r1_def good_def cap_ok_def)
  have step: "add_loop st (n # ns) r es = add_loop st ns r3 (es @ [Create n])"
    unfolding r3_def r2_def r1_def by (simp add: Let_def)
  from Cons.IH [OF ns g3(1,2), of "es @ [Create n]"] g3(3,4,5) step show ?case
    by auto
qed

lemma purgatory_loop_inv:
  assumes "[] \<notin> set ns" and "good r" and "cap_ok st r"
  shows "\<exists>r' es'. purgatory_loop st ns r es = (r', es') \<and> good r' \<and> cap_ok st r' \<and>
           nameList r' = nameList r \<and> imgs r' = imgs r \<and> busy r' = busy r \<and>
           (ns = [] \<longrightarrow> r' = r \<and> es' = es)"
  using assms
proof (induction ns arbitrary: r es)
  case Nil
  then show ?case by simp
next
  case (Cons n ns)
  from Cons.prems have n: "n \<noteq> []" and ns: "[] \<notin> set ns" by auto
  show ?case
  proof (cases "place st n r")
    case None
    with Cons.IH [OF ns Cons.prems(2,3), of "if n \<in> set (imgs r) then es @ [Detach n] else es"]
    show ?thesis by (cases "n \<in> set (imgs r)") auto
  next
    case (Some r1)
    note p = place_Some [OF Some n Cons.prems(2,3)]
    from Cons.IH [OF ns p(1,2), of es] p(3,4,5) Some show ?thesis by auto
  qed
qed

lemma backfill_inv:
  assumes "[] \<notin> set q" and "good r" and "cap_ok st r"
  shows "good (backfill st q r) \<and> cap_ok st (backfill st q r) \<and>
         nameList (backfill st q r) = nameList r \<and> imgs (backfill st q r) = imgs r \<and>
         busy (backfill st q r) = busy r \<and>
         (\<forall>x. placed r x \<longrightarrow> placed (backfill st q r) x) \<and>
         (has_capacity st (backfill st q r) \<longrightarrow> (\<forall>x \<in> set q. placed (backfill st q r) x)) \<and>
         ((q = [] \<or> \<not> has_capacity st r) \<longrightarrow> backfill st q r = r)"
  using assms
proof (induction q arbitrary: r)
  case Nil
  then show ?case by simp
next
  case (Cons n q)
  from Cons.prems have n: "n \<noteq> []" and q: "[] \<notin> set q" by auto
  show ?case
  proof (cases "has_capacity st r")
    case False
    then show ?thesis using Cons.prems by simp
  next
    case True
    then obtain r1 where pl: "place st n r = Some r1"
      using place_None [of st n r] by (cases "place st n r") auto
    note p = place_Some [OF pl n Cons.prems(2,3)]
    have step: "backfill st (n # q) r = backfill st q r1"
      using True pl by simp
    from Cons.IH [OF q p(1,2)] p(3,4,5,6,7) True show ?thesis
      unfolding step by auto
  qed
qed


lemma queue_of_placed: "queue_of r = filter (\<lambda>it. \<not> placed r it) (nameList r)"
  by (auto simp: queue_of_def placed_def intro: filter_cong)

lemma shrink_within:
  assumes "- 1 \<le> num" and "num = -1 \<or> int (length side) \<le> num"
  shows "shrink num side p = Some (side, p)"
  using assms by (auto simp: shrink_closed)

lemma shrink_result:
  assumes "- 1 \<le> num"
  shows "\<exists>l p'. shrink num side p = Some (l, p') \<and> set l \<subseteq> set side \<and>
           set p' \<subseteq> set p \<union> set side \<and> (num = -1 \<or> int (length l) \<le> num)"
proof (cases "num = -1")
  case True
  then show ?thesis by (simp add: shrink_closed)
next
  case False
  with assms have n: "0 \<le> num" by simp
  have "shrink num side p = Some (take (nat num) side, p @ rev (drop (nat num) side))"
    using assms False by (simp add: shrink_closed)
  moreover have "set (take (nat num) side) \<subseteq> set side"
    by (rule set_take_subset)
  moreover have "set (p @ rev (drop (nat num) side)) \<subseteq> set p \<union> set side"
    using set_drop_subset [of "nat num" side] by auto
  moreover have "int (length (take (nat num) side)) \<le> num"
    using n by simp
  ultimately show ?thesis by blast
qed

lemma backfill_stop: "queue_of r = [] \<or> \<not> has_capacity st r \<Longrightarrow> backfill st (rev (queue_of r)) r = r"
  by (cases "rev (queue_of r)") auto

lemma settled_noop:
  assumes "settled st names r"
  shows "updateMembers st names r = Some (r, [])"
proof -
  from assms have b: "\<not> busy r" and nl: "set (nameList r) = set names" and cap: "cap_ok st r"
    and num: "- 1 \<le> numLeft st" "- 1 \<le> numRight st"
    and q: "queue_of r = [] \<or> \<not> has_capacity st r"
    by (simp_all add: settled_def)
  define r0 where "r0 = r\<lparr>busy := True\<rparr>"
  have removed: "filter (\<lambda>it. it \<notin> set names) (nameList r) = []"
    using nl by (auto simp: filter_empty_conv)
  have added: "filter (\<lambda>it. it \<notin> set (nameList r)) names = []"
    using nl by (auto simp: filter_empty_conv)
  have sl: "shrink (numLeft st) (left r0) [] = Some (left r0, [])"
    using cap num by (intro shrink_within) (auto simp: cap_ok_def r0_def)
  have sr: "shrink (numRight st) (right r0) [] = Some (right r0, [])"
    using cap num by (intro shrink_within) (auto simp: cap_ok_def r0_def)
  have q0: "queue_of r0 = [] \<or> \<not> has_capacity st r0"
    using q by (simp add: r0_def queue_of_def has_capacity_def)
  have same: "r0\<lparr>left := left r0, right := right r0\<rparr> = r0"
    by simp
  have restore: "r0\<lparr>busy := False\<rparr> = r"
    using b by (simp add: r0_def)
  show ?thesis
    using b by (simp add: updateMembers_def removed added r0_def [symmetric] sl sr same
        backfill_stop [OF q0] restore)
qed

lemma first_call_settled:
  assumes "\<not> busy r" and "imgs r = nameList r" and "- 1 \<le> numLeft st" and "- 1 \<le> numRight st"
    and "[] \<notin> set names" and "good r"
  shows "\<exists>r1 e1. updateMembers st names r = Some (r1, e1) \<and> settled st names r1"
proof -
  define removed where "removed = filter (\<lambda>it. it \<notin> set names) (nameList r)"
  define added where "added = filter (\<lambda>it. it \<notin> set (nameList r)) names"
  define r0 where "r0 = r\<lparr>busy := True\<rparr>"
  have rem: "removable removed (nameList r0)" and im0: "imgs r0 = nameList r0"
    using assms(2) by (simp_all add: removed_def r0_def removable_filter)
  from remove_loop_present [OF rem im0, of "[]"] obtain ra ea where
    ra: "remove_loop removed r0 [] = (ra, ea, None)"
      "nameList ra = fold remove1 removed (nameList r0)" "imgs ra = nameList ra"
      "set (left ra) \<subseteq> set (left r0)" "set (right ra) \<subseteq> set (right r0)"
      "current ra = current r0 \<or> current ra = None" "busy ra = busy r0"
    by blast
  have nla: "nameList ra = filter (\<lambda>x. x \<in> set names) (nameList r)"
    using ra(2) by (simp add: removed_def r0_def fold_remove1_filter)
  have ga: "good ra"
    using assms(6) ra(4,5,6) by (auto simp: good_def r0_def)
  from shrink_result [OF assms(3), of "left ra" "[]"] obtain l p1 where
    sl: "shrink (numLeft st) (left ra) [] = Some (l, p1)"
    and l: "set l \<subseteq> set (left ra)" "set p1 \<subseteq> set (left ra)"
      "numLeft st = -1 \<or> int (length l) \<le> numLeft st"
    by auto
  from shrink_result [OF assms(4), of "right ra" p1] obtain rt p2 where
    sr: "shrink (numRight st) (right ra) p1 = Some (rt, p2)"
    and rt: "set rt \<subseteq> set (right ra)" "set p2 \<subseteq> set p1 \<union> set (right ra)"
      "numRight st = -1 \<or> int (length rt) \<le> numRight st"
    by auto
  define rb where "rb = ra\<lparr>left := l, right := rt\<rparr>"
  have gb: "good rb" "cap_ok st rb"
    using ga l rt by (auto simp: good_def cap_ok_def rb_def)
  have p2: "[] \<notin> set p2"
    using ga l(2) rt(2) by (auto simp: good_def)
  have ad: "[] \<notin> set added"
    using assms(5) by (auto simp: added_def)
  from add_loop_inv [OF ad gb, of ea] obtain rc ec where
    rc: "add_loop st added rb ea = (rc, ec)" "good rc" "cap_ok st rc"
      "nameList rc = nameList rb @ added" "busy rc = busy rb"
    by blast
  from purgatory_loop_inv [OF p2 rc(2,3), of ec] obtain rd ed where
    rd: "purgatory_loop st p2 rc ec = (rd, ed)" "good rd" "cap_ok st rd"
      "nameList rd = nameList rc" "busy rd = busy rc"
    by blast
  have nld: "nameList rd = filter (\<lambda>x. x \<in> set names) (nameList r) @ added"
    using rd(4) rc(4) nla by (simp add: rb_def)
  have nlset: "set (nameList rd) = set names"
    by (auto simp: nld added_def)
  have qd: "[] \<notin> set (rev (queue_of rd))"
    using assms(5) nlset by (auto simp: queue_of_def)
  define re where "re = backfill st (rev (queue_of rd)) rd"
  note bf = backfill_inv [OF qd rd(2,3), folded re_def]
  have qe: "queue_of re = [] \<or> \<not> has_capacity st re"
  proof (cases "has_capacity st re")
    case False
    then show ?thesis by simp
  next
    case True
    have "placed re x" if "x \<in> set (nameList re)" for x
    proof (cases "placed rd x")
      case True
      with bf show ?thesis by blast
    next
      case False
      with that bf have "x \<in> set (queue_of rd)"
        by (simp add: queue_of_placed)
      with bf True show ?thesis by simp
    qed
    then show ?thesis
      by (simp add: queue_of_placed filter_empty_conv)
  qed
  define r1 where "r1 = re\<lparr>busy := False\<rparr>"
  have res: "updateMembers st names r = Some (r1, ed)"
    using assms(1) ra(1) sl sr rc(1) rd(1)
    by (simp add: updateMembers_def removed_def [symmetric] added_def [symmetric]
        r0_def [symmetric] rb_def [symmetric] re_def [symmetric] r1_def)
  have "settled st names r1"
    using bf nlset qe assms(3,4)
    by (simp add: settled_def r1_def cap_ok_def queue_of_def has_capacity_def)
  with res show ?thesis by blast
qed

text \<open>
  Claim C4: the refresh is idempotent. For a roster that is not busy, whose wrappers match
  its name list, with capacities of at least \<open>-1\<close> and no empty string among the names,
  the refresh returns, and a second refresh with the same desired names and capacities
  returns the same roster and has no effect on the rendering surface (no wrapper
  detached or created).
\<close>

theorem refresh_idempotent:
  assumes "\<not> busy r" and "imgs r = nameList r" and "- 1 \<le> numLeft st" and "- 1 \<le> numRight st"
    and "[] \<notin> set names" and "good r"
  shows "\<exists>r1 e1. updateMembers st names r = Some (r1, e1) \<and>
           updateMembers st names r1 = Some (r1, [])"
  using first_call_settled [OF assms] settled_noop by blast

theorem refresh_idempotent_witness:
  "\<not> busy empty_roster \<and> imgs empty_roster = nameList empty_roster \<and>
   - 1 \<le> numLeft \<lparr>numLeft = 1, numRight = 1\<rparr> \<and> - 1 \<le> numRight \<lparr>numLeft = 1, numRight = 1\<rparr> \<and>
   [] \<notin> set [''A'', ''B'', ''C'', ''D''] \<and> good empty_roster \<and>
   (\<exists>r1 e1. updateMembers \<lparr>numLeft = 1, numRight = 1\<rparr> [''A'', ''B'', ''C'', ''D''] empty_roster =
              Some (r1, e1) \<and>
            updateMembers \<lparr>numLeft = 1, numRight = 1\<rparr> [''A'', ''B'', ''C'', ''D''] r1 =
              Some (r1, []))"
proof -
  have h: "\<not> busy empty_roster" "imgs empty_roster = nameList empty_roster"
    "- 1 \<le> numLeft \<lparr>numLeft = 1, numRight = 1\<rparr>" "- 1 \<le> numRight \<lparr>numLeft = 1, numRight = 1\<rparr>"
    "[] \<notin> set [''A'', ''B'', ''C'', ''D'']" "good empty_roster"
    by (simp_all add: empty_roster_def good_def)
  from refresh_idempotent [OF h] h show ?thesis
    by blast
qed

text \<open>What one removal does to the sides and to \<open>current\<close>: a name on the left leaves
  \<open>right\<close> and \<open>current\<close> alone, a name on the right leaves \<open>left\<close> and \<open>current\<close> alone,
  and every other name, \<open>current\<close> or not, clears \<open>current\<close>.\<close>

lemma remove_member_frame:
  assumes "remove_member n r = (r', es, err)"
  shows "n \<in> set (left r) \<Longrightarrow>
           left r' = remove1 n (left r) \<and> right r' = right r \<and> current r' = current r"
    and "n \<notin> set (left r) \<Longrightarrow> n \<in> set (right r) \<Longrightarrow>
           left r' = left r \<and> right r' = remove1 n (right r) \<and> current r' = current r"
    and "n \<notin> set (left r) \<Longrightarrow> n \<notin> set (right r) \<Longrightarrow>
           left r' = left r \<and> right r' = right r \<and> current r' = None"
  using assms
  by (auto simp: remove_member_def Let_def splice1_indexOf split: option.splits)

text \<open>
  Claim C3: processing a removed name touches only the structure that holds it; removing
  a name held by none of \<open>left\<close>, \<open>right\<close>, \<open>current\<close> leaves \<open>current\<close> unchanged.
  The code's last branch sets \<open>current = null\<close> without looking at \<open>current\<close>: removing the
  unassigned name D clears the current name A. Over a whole refresh the backfill pass then
  hands \<open>current\<close> to the last unassigned name: A is displaced by E.
\<close>

theorem remove_unassigned_clears_current:
  "remove_member ''D''
     \<lparr>nameList = [''A'', ''B'', ''C'', ''D''], left = [''B''], right = [''C''],
      current = Some ''A'', imgs = [''A'', ''B'', ''C'', ''D''], busy = True\<rparr> =
     (\<lparr>nameList = [''A'', ''B'', ''C''], left = [''B''], right = [''C''],
       current = None, imgs = [''A'', ''B'', ''C''], busy = True\<rparr>, [Detach ''D''], None)
   \<and>
   updateMembers \<lparr>numLeft = 1, numRight = 1\<rparr> [''A'', ''B'', ''C'', ''E'']
     \<lparr>nameList = [''A'', ''B'', ''C'', ''D'', ''E''], left = [''B''], right = [''C''],
      current = Some ''A'', imgs = [''A'', ''B'', ''C'', ''D'', ''E''], busy = False\<rparr> =
     Some (\<lparr>nameList = [''A'', ''B'', ''C'', ''E''], left = [''B''], right = [''C''],
            current = Some ''E'', imgs = [''A'', ''B'', ''C'', ''E''], busy = False\<rparr>,
           [Detach ''D''])"
  by code_simp

section \<open>Properties of the presence counter and resolver\<close>

lemma count_spans_Inl: "count_spans n sps acc = Inl e \<Longrightarrow> inherited_key n"
  by (induction sps arbitrary: acc) (auto split: if_splits)

lemma collect_items_Inl:
  "collect_items cs spans i ns items = Inl e \<Longrightarrow> \<exists>n \<in> set ns. inherited_key n"
proof (induction ns arbitrary: i items)
  case Nil
  then show ?case by simp
next
  case (Cons n ns)
  then show ?case
    by (auto simp: countOccurrencesOutsideBrackets_def split: if_splits sum.splits
        dest: count_spans_Inl)
qed

lemma collect_items_set:
  "collect_items cs spans i ns items = Inr res \<Longrightarrow>
     set (map name res) \<subseteq> set (map name items) \<union> set ns"
proof (induction ns arbitrary: i items)
  case Nil
  then show ?case by simp
next
  case (Cons n ns)
  show ?case
  proof (cases "toLowerCase n \<in> set (exclude cs)")
    case True
    with Cons.prems have "collect_items cs spans (i + 1) ns items = Inr res" by simp
    from Cons.IH [OF this] show ?thesis by auto
  next
    case False
    with Cons.prems obtain oc where oc: "countOccurrencesOutsideBrackets n spans = Inr oc"
      by (cases "countOccurrencesOutsideBrackets n spans") auto
    let ?items = "if count oc > 0
                   then items @ [\<lparr>name = n, icount = count oc, ifirstIndex = firstIndex oc,
                                  masterIndex = i, forced = False\<rparr>]
                   else items"
    from Cons.prems False oc have "collect_items cs spans (i + 1) ns ?items = Inr res" by simp
    from Cons.IH [OF this] show ?thesis by (auto split: if_splits)
  qed
qed

lemma collect_items_distinct:
  "collect_items cs spans i ns items = Inr res \<Longrightarrow> distinct (map name items @ ns) \<Longrightarrow>
     distinct (map name res)"
proof (induction ns arbitrary: i items)
  case Nil
  then show ?case by simp
next
  case (Cons n ns)
  show ?case
  proof (cases "toLowerCase n \<in> set (exclude cs)")
    case True
    with Cons.prems have "collect_items cs spans (i + 1) ns items = Inr res" by simp
    from Cons.IH [OF this] Cons.prems(2) show ?thesis by auto
  next
    case False
    with Cons.prems obtain oc where oc: "countOccurrencesOutsideBrackets n spans = Inr oc"
      by (cases "countOccurrencesOutsideBrackets n spans") auto
    let ?items = "if count oc > 0
                   then items @ [\<lparr>name = n, icount = count oc, ifirstIndex = firstIndex oc,
                                  masterIndex = i, forced = False\<rparr>]
                   else items"
    from Cons.prems False oc have c: "collect_items cs spans (i + 1) ns ?items = Inr res" by simp
    from Cons.prems(2) have "distinct (map name ?items @ ns)" by auto
    from Cons.IH [OF c this] show ?thesis .
  qed
qed

lemma mark_forced_names [simp]: "map name (mark_forced u its) = map name its"
  by (induction its) auto

lemma ensure_user_names:
  "map name (ensure_user u its) = (if u \<in> set (map name its) then map name its else map name its @ [u])"
  by (auto simp: ensure_user_def)

lemma insert_item_set [simp]: "set (insert_item a bs) = insert a (set bs)"
  by (induction bs) auto

lemma insert_item_length [simp]: "length (insert_item a bs) = Suc (length bs)"
  by (induction bs) auto

lemma insert_item_distinct [simp]:
  "distinct (map name (insert_item a bs)) = (name a \<notin> name ` set bs \<and> distinct (map name bs))"
  by (induction bs) auto

lemma sort_items_set [simp]: "set (sort_items xs) = set xs"
  by (induction xs) (auto simp: sort_items_def)

lemma sort_items_length [simp]: "length (sort_items xs) = length xs"
  by (induction xs) (auto simp: sort_items_def)

lemma sort_items_distinct [simp]: "distinct (map name (sort_items xs)) = distinct (map name xs)"
proof (induction xs)
  case Nil
  then show ?case by (simp add: sort_items_def)
next
  case (Cons x xs)
  have "sort_items (x # xs) = insert_item x (sort_items xs)"
    by (simp add: sort_items_def)
  with Cons show ?case by simp
qed

lemma findIndex_name_Some:
  "findIndex_name u its = Some k \<Longrightarrow> k < length its \<and> name (its ! k) = u"
  by (induction its arbitrary: k) (auto split: if_splits)

lemma findIndex_name_zero: "findIndex_name u its = Some 0 \<longleftrightarrow> its \<noteq> [] \<and> name (hd its) = u"
  by (cases its) auto

lemma demote_eq:
  "demote u its =
     (if its \<noteq> [] \<and> name (hd its) = u \<and> length its > 1
      then (its ! 1) # (its ! 0) # drop 2 its else its)"
proof (cases its)
  case Nil
  then show ?thesis by (simp add: demote_def)
next
  case (Cons a as)
  then show ?thesis by (cases as) (auto simp: demote_def)
qed

lemma demote_set [simp]: "set (demote u its) = set its"
  by (auto simp: demote_def split: list.splits)

lemma demote_length [simp]: "length (demote u its) = length its"
  by (auto simp: demote_def split: list.splits)

lemma demote_distinct [simp]: "distinct (map name (demote u its)) = distinct (map name its)"
  by (auto simp: demote_def split: list.splits)

lemma move_to_front_names:
  "set (move_to_front u its) = set its \<and> length (move_to_front u its) = length its \<and>
   (distinct (map name its) \<longrightarrow> distinct (map name (move_to_front u its)))"
proof (cases "findIndex_name u its")
  case None
  then show ?thesis by (simp add: move_to_front_def)
next
  case (Some k)
  from findIndex_name_Some [OF Some] have k: "k < length its" by simp
  then have its: "its = take k its @ (its ! k) # drop (k + 1) its"
    by (simp add: id_take_nth_drop)
  have mf: "move_to_front u its = (its ! k) # (take k its @ drop (k + 1) its)"
    using Some by (simp add: move_to_front_def)
  have "set its = set (take k its @ (its ! k) # drop (k + 1) its)"
    using its by simp
  then have s: "set (move_to_front u its) = set its"
    unfolding mf by auto
  have l: "length (move_to_front u its) = length its"
    unfolding mf using k by simp
  have d: "distinct (map name (move_to_front u its))" if "distinct (map name its)"
  proof -
    from that have "distinct (map name (take k its @ (its ! k) # drop (k + 1) its))"
      using its by simp
    then show ?thesis unfolding mf by auto
  qed
  from s l d show ?thesis by blast
qed


lemma sorted_items_Inl:
  "sorted_items cs m nl = Inl e \<Longrightarrow> \<exists>n \<in> set nl. inherited_key n"
  by (auto simp: sorted_items_def Let_def split: sum.splits dest: collect_items_Inl)

lemma truthy_Some: "truthy v \<Longrightarrow> v = Some (the v) \<and> the v \<noteq> []"
  by (cases v) (auto simp: truthy_def)

lemma sorted_items_Inr:
  assumes "sorted_items cs m nl = Inr its" and "distinct nl"
  shows "distinct (map name its)"
    and "\<forall>n \<in> set (map name its). n \<in> set nl \<or> user_name cs nl = Some n"
proof -
  let ?spans = "map (with_text (mes m)) (getNonBracketSpans (mes m))"
  from assms(1) obtain items where
    c: "collect_items cs ?spans 0 nl [] = Inr items" and
    its: "its = sort_items (if is_user m \<and> truthy (user_name cs nl)
                              then ensure_user (the (user_name cs nl)) items else items)"
    by (auto simp: sorted_items_def Let_def split: sum.splits)
  from collect_items_distinct [OF c] assms(2) have d: "distinct (map name items)" by simp
  from collect_items_set [OF c] have s: "set (map name items) \<subseteq> set nl" by simp
  show "distinct (map name its)"
    using d by (simp add: its ensure_user_names)
  have "set (map name its) = name ` set (if is_user m \<and> truthy (user_name cs nl)
                              then ensure_user (the (user_name cs nl)) items else items)"
    by (simp add: its)
  also have "\<dots> \<subseteq> set nl \<union> {n. user_name cs nl = Some n}"
  proof (cases "is_user m \<and> truthy (user_name cs nl)")
    case True
    define u where "u = the (user_name cs nl)"
    from True have un: "user_name cs nl = Some u"
      using truthy_Some unfolding u_def by blast
    have "set (map name (ensure_user u items)) \<subseteq> insert u (set (map name items))"
      by (simp add: ensure_user_names subset_insertI)
    then have "name ` set (ensure_user u items) \<subseteq> insert u (set nl)"
      using s by auto
    then show ?thesis using True un by (auto simp: u_def [symmetric])
  next
    case False
    then show ?thesis using s by auto
  qed
  finally show "\<forall>n \<in> set (map name its). n \<in> set nl \<or> user_name cs nl = Some n"
    by auto
qed

lemma distinct_length_bound:
  assumes "distinct res" and "\<forall>n \<in> set res. n \<in> set nl \<or> v = Some n"
  shows "length res \<le> length nl + 1"
proof -
  have "set res \<subseteq> set nl \<union> set_option v"
    using assms(2) by auto
  then have "card (set res) \<le> card (set nl \<union> set_option v)"
    by (intro card_mono) auto
  also have "\<dots> \<le> card (set nl) + card (set_option v)"
    by (rule card_Un_le)
  also have "\<dots> \<le> length nl + 1"
    using card_length [of nl] by (cases v) auto
  finally show ?thesis
    using assms(1) by (simp add: distinct_card)
qed

text \<open>
  Claim C10: for every message and every master name list with unique entries, the
  resolver's list has no duplicate, each of its names is in the master list or is
  \<open>USER_NAME\<close>, and it is at most one longer than the master list. The call returns
  such a list unless a master name has the lower-case form \<open>constructor\<close> or
  \<open>__proto__\<close>, the one case where it throws.
\<close>

theorem resolver_names_distinct:
  assumes "distinct nl"
  shows "case getPresentOrderedNames cs m nl of
           Inl e \<Rightarrow> \<exists>n \<in> set nl. inherited_key n
         | Inr res \<Rightarrow>
             distinct res \<and> (\<forall>n \<in> set res. n \<in> set nl \<or> user_name cs nl = Some n) \<and>
             length res \<le> length nl + 1"
proof (cases "mes m = [] \<and> is_user m")
  case True
  then have "getPresentOrderedNames cs m nl =
      Inr (if truthy (user_name cs nl) then [the (user_name cs nl)] else [])"
    by (simp add: getPresentOrderedNames_def)
  then show ?thesis
    using truthy_Some [of "user_name cs nl"] by auto
next
  case False
  show ?thesis
  proof (cases "sorted_items cs m nl")
    case (Inl e)
    with False have "getPresentOrderedNames cs m nl = Inl e"
      by (auto simp: getPresentOrderedNames_def)
    with sorted_items_Inl [OF Inl] show ?thesis by simp
  next
    case (Inr its)
    define its1 where "its1 = (if \<not> is_user m \<and> truthy (user_name cs nl)
                            then demote (the (user_name cs nl)) its else its)"
    define its2 where "its2 = (if is_user m \<and> truthy (user_name cs nl)
                            then move_to_front (the (user_name cs nl)) its1 else its1)"
    from False Inr have res: "getPresentOrderedNames cs m nl = Inr (map name its2)"
      by (auto simp: getPresentOrderedNames_def its1_def its2_def Let_def)
    note si = sorted_items_Inr [OF Inr assms]
    have d1: "distinct (map name its1)" and s1: "set its1 = set its"
      using si(1) by (auto simp: its1_def)
    have d2: "distinct (map name its2)" and s2: "set its2 = set its"
      using d1 s1 move_to_front_names [of "the (user_name cs nl)" its1]
      by (auto simp: its2_def)
    have m2: "\<forall>n \<in> set (map name its2). n \<in> set nl \<or> user_name cs nl = Some n"
      using si(2) s2 by simp
    from distinct_length_bound [OF d2 m2] d2 m2 res show ?thesis
      by simp
  qed
qed

theorem resolver_names_distinct_witness:
  "distinct [''Alice'', ''Bob'', ''Carol''] \<and>
   getPresentOrderedNames \<lparr>members = [], exclude = []\<rparr>
     \<lparr>mes = ''(Alice) Bob Alice'', is_user = False, is_system = False\<rparr>
     [''Alice'', ''Bob'', ''Carol''] = Inr [''Bob'', ''Alice''] \<and>
   distinct [''Bob'', ''Alice''] \<and>
   (''Bob'' \<in> set [''Alice'', ''Bob'', ''Carol''] \<or>
    user_name \<lparr>members = [], exclude = []\<rparr> [''Alice'', ''Bob'', ''Carol''] = Some ''Bob'') \<and>
   length [''Bob'', ''Alice''] \<le> length [''Alice'', ''Bob'', ''Carol''] + 1"
proof -
  have d: "distinct [''Alice'', ''Bob'', ''Carol'']"
    by simp
  have e: "getPresentOrderedNames \<lparr>members = [], exclude = []\<rparr>
     \<lparr>mes = ''(Alice) Bob Alice'', is_user = False, is_system = False\<rparr>
     [''Alice'', ''Bob'', ''Carol''] = Inr [''Bob'', ''Alice'']"
    by code_simp
  from resolver_names_distinct [OF d, of "\<lparr>members = [], exclude = []\<rparr>"
      "\<lparr>mes = ''(Alice) Bob Alice'', is_user = False, is_system = False\<rparr>"] d e
  show ?thesis
    by simp
qed

text \<open>
  Claim C7: for a message not from the user, with \<open>USER_NAME\<close> a non-empty name: if after
  sorting the user's item is at position 0 and another item exists, the positions 0 and 1
  are swapped and nothing else moves (the user's item lands at position 1); otherwise the
  sorted order is returned as it is. With unique master names and at least two items,
  \<open>USER_NAME\<close> is not at position 0 of the result.
\<close>

theorem demotion_rule:
  assumes "\<not> is_user m" and "user_name cs nl = Some u" and "u \<noteq> []"
    and "sorted_items cs m nl = Inr its"
  shows "getPresentOrderedNames cs m nl =
           Inr (map name (if its \<noteq> [] \<and> name (hd its) = u \<and> length its > 1
                          then (its ! 1) # (its ! 0) # drop 2 its else its))
         \<and>
         (distinct nl \<longrightarrow> length its \<ge> 2 \<longrightarrow>
            (\<exists>res. getPresentOrderedNames cs m nl = Inr res \<and> hd res \<noteq> u))"
proof -
  from assms(2,3) have t: "truthy (user_name cs nl)" and u: "the (user_name cs nl) = u"
    by (simp_all add: truthy_def)
  from assms(1,4) t u have res: "getPresentOrderedNames cs m nl = Inr (map name (demote u its))"
    by (auto simp: getPresentOrderedNames_def Let_def)
  have "hd (map name (demote u its)) \<noteq> u" if d: "distinct nl" and l: "length its \<ge> 2"
  proof -
    from sorted_items_Inr(1) [OF assms(4) d] have dn: "distinct (map name its)" .
    from l obtain a b rest where its: "its = a # b # rest"
      by (cases its; cases "tl its") auto
    with dn show ?thesis
      by (auto simp: demote_def)
  qed
  with res show ?thesis
    by (simp add: demote_eq)
qed

theorem demotion_rule_witness:
  "\<not> is_user \<lparr>mes = ''(Alice) Bob Alice'', is_user = False, is_system = False\<rparr> \<and>
   user_name \<lparr>members = [], exclude = []\<rparr> [''Alice'', ''Bob'', ''Carol''] = Some ''Alice'' \<and>
   ''Alice'' \<noteq> [] \<and> distinct [''Alice'', ''Bob'', ''Carol''] \<and>
   sorted_items \<lparr>members = [], exclude = []\<rparr>
     \<lparr>mes = ''(Alice) Bob Alice'', is_user = False, is_system = False\<rparr>
     [''Alice'', ''Bob'', ''Carol''] =
     Inr [\<lparr>name = ''Alice'', icount = 2, ifirstIndex = Some 0, masterIndex = 0, forced = False\<rparr>,
          \<lparr>name = ''Bob'', icount = 1, ifirstIndex = Some 7, masterIndex = 1, forced = False\<rparr>] \<and>
   getPresentOrderedNames \<lparr>members = [], exclude = []\<rparr>
     \<lparr>mes = ''(Alice) Bob Alice'', is_user = False, is_system = False\<rparr>
     [''Alice'', ''Bob'', ''Carol''] = Inr [''Bob'', ''Alice'']"
proof -
  have m: "\<not> is_user \<lparr>mes = ''(Alice) Bob Alice'', is_user = False, is_system = False\<rparr>"
    by simp
  have u: "user_name \<lparr>members = [], exclude = []\<rparr> [''Alice'', ''Bob'', ''Carol''] = Some ''Alice''"
    by (simp add: user_name_def)
  have n: "''Alice'' \<noteq> []"
    by simp
  have s: "sorted_items \<lparr>members = [], exclude = []\<rparr>
     \<lparr>mes = ''(Alice) Bob Alice'', is_user = False, is_system = False\<rparr>
     [''Alice'', ''Bob'', ''Carol''] =
     Inr [\<lparr>name = ''Alice'', icount = 2, ifirstIndex = Some 0, masterIndex = 0, forced = False\<rparr>,
          \<lparr>name = ''Bob'', icount = 1, ifirstIndex = Some 7, masterIndex = 1, forced = False\<rparr>]"
    by code_simp
  from demotion_rule [OF m u n s] m u n s show ?thesis
    by simp
qed

text \<open>
  Claim C2: for the text \<open>(Alice) Bob Alice\<close>, a message not from the user and the master
  names Alice, Bob, Carol, the resolver counts one unbracketed occurrence of Alice and one
  of Bob, the parenthesized Alice being excluded. In the code parentheses are no bracket
  tokens: the whole text is one plain span, Alice is counted twice with first index 0 and
  Bob once with first index 7, so Alice sorts first by count, although Bob's first
  occurrence is the earlier of the two unbracketed ones. With a custom member list headed
  by another name the result is Alice, Bob; with no custom member list Alice is the user
  name and is then demoted behind Bob.
\<close>

theorem resolve_parenthesized_example:
  "getNonBracketSpans ''(Alice) Bob Alice'' = [\<lparr>start = 0, end' = 17\<rparr>]
   \<and>
   collect_items \<lparr>members = [], exclude = []\<rparr>
     (map (with_text ''(Alice) Bob Alice'') (getNonBracketSpans ''(Alice) Bob Alice'')) 0
     [''Alice'', ''Bob'', ''Carol''] [] =
     Inr [\<lparr>name = ''Alice'', icount = 2, ifirstIndex = Some 0, masterIndex = 0, forced = False\<rparr>,
          \<lparr>name = ''Bob'', icount = 1, ifirstIndex = Some 7, masterIndex = 1, forced = False\<rparr>]
   \<and>
   getPresentOrderedNames \<lparr>members = [], exclude = []\<rparr>
     \<lparr>mes = ''(Alice) Bob Alice'', is_user = False, is_system = False\<rparr>
     [''Alice'', ''Bob'', ''Carol''] = Inr [''Bob'', ''Alice'']
   \<and>
   getPresentOrderedNames \<lparr>members = [''Carol''], exclude = []\<rparr>
     \<lparr>mes = ''(Alice) Bob Alice'', is_user = False, is_system = False\<rparr>
     [''Alice'', ''Bob'', ''Carol''] = Inr [''Alice'', ''Bob'']"
  by code_simp

text \<open>
  Claim C6: \<open>countOccurrences\<close> returns the number of case-insensitive occurrences of the
  name that stand between non-word characters or text boundaries. The pattern consumes
  the delimiter after a match, so an occurrence that follows the previous one after a
  single delimiter is not found: in \<open>Alice Alice\<close> the name occurs word-bounded at the
  positions 0 and 6, and the code counts 1.
\<close>

theorem count_adjacent_occurrences:
  "countOccurrencesOutsideBrackets ''Alice''
     (map (with_text ''Alice Alice'') (getNonBracketSpans ''Alice Alice'')) =
     Inr \<lparr>count = 1, firstIndex = Some 0\<rparr>
   \<and> spec_word_occurrences ''Alice'' ''Alice Alice'' = [0, 6]"
  by code_simp

section \<open>Properties of the order from the chat history\<close>

text \<open>
  Claim C8, as stated: names first seen in the same message are ordered by their earliest
  match under the presence counter's rule, which ignores case. The pattern of
  \<open>getOrderFromText\<close> has no flag: for the members Bob, Alice and the text
  \<open>bob met Alice and Bob\<close> the presence counter finds Bob first (index 0, before Alice at
  index 7), and \<open>getOrderFromText\<close> puts Alice first.
\<close>

theorem order_case_counterexample:
  "getOrderFromText [\<lparr>mes = ''bob met Alice and Bob'', is_user = False, is_system = False\<rparr>]
     [''Bob'', ''Alice''] = [''Alice'', ''Bob'']
   \<and>
   countOccurrencesOutsideBrackets ''Bob''
     (map (with_text ''bob met Alice and Bob'') (getNonBracketSpans ''bob met Alice and Bob'')) =
     Inr \<lparr>count = 2, firstIndex = Some 0\<rparr>
   \<and>
   countOccurrencesOutsideBrackets ''Alice''
     (map (with_text ''bob met Alice and Bob'') (getNonBracketSpans ''bob met Alice and Bob'')) =
     Inr \<lparr>count = 1, firstIndex = Some 7\<rparr>"
  by code_simp

lemma removable_mset: "mset ns \<subseteq># mset xs \<Longrightarrow> removable ns xs"
proof (induction ns arbitrary: xs)
  case Nil
  then show ?case by simp
next
  case (Cons n ns)
  from Cons.prems have n: "n \<in> set xs"
    by (metis mset_subset_eq_insertD set_mset_mset mset.simps(2))
  from Cons.prems have "mset ns \<subseteq># mset xs - {#n#}"
    by (simp add: insert_subset_eq_iff)
  then have "mset ns \<subseteq># mset (remove1 n xs)" by simp
  from Cons.IH [OF this] n show ?case by simp
qed

lemma splice_members_fold: "removable ns xs \<Longrightarrow> splice_members ns xs = fold remove1 ns xs"
  by (induction ns arbitrary: xs) (auto simp: splice1_indexOf)

lemma fold_remove1_keeps: "x \<in> set xs \<Longrightarrow> x \<notin> set ns \<Longrightarrow> x \<in> set (fold remove1 ns xs)"
  by (induction ns arbitrary: xs) auto

lemma mesmem_of_set:
  "set (mesmem_of t ms) = {(m, i). m \<in> set ms \<and> first_match m t = Some i}"
  by (induction ms) (auto simp: first_match_def split: option.splits)

lemma mesmem_of_mset: "mset (map fst (mesmem_of t ms)) \<subseteq># mset ms"
proof (induction ms)
  case Nil
  then show ?case by simp
next
  case (Cons m ms)
  then show ?case
    by (auto split: option.splits intro: subset_mset.order_trans)
qed

lemma names_removable: "removable (map fst (sort_key snd (mesmem_of t ms))) ms"
proof -
  have "mset (map fst (sort_key snd (mesmem_of t ms))) = mset (map fst (mesmem_of t ms))"
    by (metis mset_map mset_sort)
  with mesmem_of_mset [of t ms] show ?thesis
    by (intro removable_mset) simp
qed

lemma first_occurrences_Cons:
  "first_occurrences (x # xs) = x # filter (\<lambda>y. y \<noteq> x) (first_occurrences xs)"
proof -
  have upt: "[0 ..< length (x # xs)] = 0 # map Suc [0 ..< length xs]"
    by (simp add: upt_conv_Cons map_Suc_upt del: upt_Suc)
  have ix: "js_indexOf (x # xs) y = 1 + int i \<longleftrightarrow> y \<noteq> x \<and> js_indexOf xs y = int i" for y i
    by (cases "index_in y xs") (auto simp: js_indexOf_def)
  have "filter (\<lambda>(it, idx). js_indexOf (x # xs) it = int idx) (zip xs (map Suc [0 ..< length xs])) =
        map (\<lambda>(it, idx). (it, Suc idx))
          (filter (\<lambda>(it, idx). it \<noteq> x \<and> js_indexOf xs it = int idx) (zip xs [0 ..< length xs]))"
    by (simp add: zip_map2 filter_map o_def case_prod_unfold ix)
  moreover have "map fst (filter (\<lambda>(it, idx). it \<noteq> x \<and> js_indexOf xs it = int idx) ps) =
        filter (\<lambda>y. y \<noteq> x) (map fst (filter (\<lambda>(it, idx). js_indexOf xs it = int idx) ps))" for ps
    by (induction ps) auto
  ultimately show ?thesis
    unfolding first_occurrences_def upt
    by (simp add: js_indexOf_def o_def case_prod_unfold)
qed

lemma first_occurrences_Nil [simp]: "first_occurrences [] = []"
  by (simp add: first_occurrences_def)

lemma first_occurrences_set [simp]: "set (first_occurrences xs) = set xs"
  by (induction xs) (auto simp: first_occurrences_Cons)

lemma precedes_filter:
  "precedes a b xs \<Longrightarrow> x \<noteq> a \<Longrightarrow> precedes a b (filter (\<lambda>y. y \<noteq> x) xs)"
  by (induction xs) (auto split: if_splits)

lemma precedes_first_occurrences: "precedes a b xs \<Longrightarrow> precedes a b (first_occurrences xs)"
proof (induction xs)
  case Nil
  then show ?case by simp
next
  case (Cons x xs)
  then show ?case
    by (auto simp: first_occurrences_Cons precedes_filter split: if_splits)
qed

lemma precedes_append:
  "a \<notin> set xs \<Longrightarrow> b \<notin> set xs \<Longrightarrow> precedes a b ys \<Longrightarrow> precedes a b (xs @ ys @ zs)"
proof (induction xs)
  case Nil
  then show ?case by (induction ys) (auto split: if_splits)
next
  case (Cons x xs)
  then show ?case by auto
qed

lemma precedes_sorted:
  assumes "sorted (map snd L)" and "\<forall>(n, i) \<in> set L. i = k n" and "a \<in> fst ` set L" and "k a < k b"
  shows "precedes a b (map fst L)"
  using assms
proof (induction L)
  case Nil
  then show ?case by simp
next
  case (Cons p L)
  obtain n i where p: "p = (n, i)" by (cases p)
  show ?case
  proof (cases "n = a")
    case True
    with p show ?thesis by simp
  next
    case False
    with Cons.prems(3) p have aL: "a \<in> fst ` set L" by auto
    then obtain j where j: "(a, j) \<in> set L" by auto
    with Cons.prems(2) have "j = k a" by auto
    moreover from Cons.prems(1) j p have "i \<le> j" by force
    moreover from Cons.prems(2) p have "i = k n" by simp
    ultimately have "n \<noteq> b" using Cons.prems(4) by auto
    moreover have "precedes a b (map fst L)"
      using Cons.IH Cons.prems aL by auto
    ultimately show ?thesis using False p by simp
  qed
qed


lemma order_loop_append: "\<exists>zs. order_loop ms mems ord = ord @ zs"
proof (induction ms arbitrary: mems ord)
  case Nil
  then show ?case by simp
next
  case (Cons m ms)
  define mm where "mm = sort_key snd (mesmem_of (mes m) mems)"
  from Cons [of "splice_members (map fst mm) mems" "ord @ first_occurrences (map fst mm)"]
  show ?case by (auto simp: mm_def Let_def)
qed

lemma sorted_names_set:
  "set (map fst (sort_key snd (mesmem_of t ms))) = {m \<in> set ms. first_match m t \<noteq> None}"
  by (auto simp: mesmem_of_set image_iff)

lemma order_loop_skip:
  assumes "\<forall>m \<in> set pre. first_match a (mes m) = None \<and> first_match b (mes m) = None"
    and "a \<in> set mems" and "b \<in> set mems" and "a \<notin> set ord" and "b \<notin> set ord"
  shows "\<exists>mems' ord'. order_loop (pre @ rest) mems ord = order_loop rest mems' ord' \<and>
           a \<in> set mems' \<and> b \<in> set mems' \<and> a \<notin> set ord' \<and> b \<notin> set ord'"
  using assms
proof (induction pre arbitrary: mems ord)
  case Nil
  then show ?case by auto
next
  case (Cons m pre)
  define ns where "ns = map fst (sort_key snd (mesmem_of (mes m) mems))"
  have nset: "set ns = {x \<in> set mems. first_match x (mes m) \<noteq> None}"
    unfolding ns_def by (rule sorted_names_set)
  from Cons.prems(1) have ab: "a \<notin> set ns" "b \<notin> set ns"
    by (auto simp: nset)
  have sp: "splice_members ns mems = fold remove1 ns mems"
    unfolding ns_def by (intro splice_members_fold names_removable)
  have keep: "a \<in> set (splice_members ns mems)" "b \<in> set (splice_members ns mems)"
    using Cons.prems(2,3) ab by (simp_all add: sp fold_remove1_keeps)
  have ord: "a \<notin> set (ord @ first_occurrences ns)" "b \<notin> set (ord @ first_occurrences ns)"
    using Cons.prems(4,5) ab by simp_all
  have step: "order_loop ((m # pre) @ rest) mems ord =
      order_loop (pre @ rest) (splice_members ns mems) (ord @ first_occurrences ns)"
    by (simp add: ns_def Let_def)
  from Cons.prems(1) have pre: "\<forall>m \<in> set pre. first_match a (mes m) = None \<and> first_match b (mes m) = None"
    by simp
  from Cons.IH [OF pre keep ord] show ?case
    unfolding step .
qed

lemma same_message_order:
  assumes "first_match a t = Some ia" and "first_match b t = Some ib" and "ia < ib"
    and "a \<in> set mems" and "b \<in> set mems"
  shows "precedes a b (first_occurrences (map fst (sort_key snd (mesmem_of t mems))))"
proof -
  let ?L = "sort_key snd (mesmem_of t mems)"
  have s: "sorted (map snd ?L)"
    by (rule sorted_sort_key)
  have k: "\<forall>(n, i) \<in> set ?L. i = the (first_match n t)"
    by (auto simp: mesmem_of_set)
  have a: "a \<in> fst ` set ?L"
    using assms(1,4) by (auto simp: mesmem_of_set image_iff)
  have "the (first_match a t) < the (first_match b t)"
    using assms(1,2,3) by simp
  from precedes_sorted [OF s k a this] show ?thesis
    by (rule precedes_first_occurrences)
qed

text \<open>
  Claim C8, amended: names first seen in the same message are ordered by the position of
  their earliest match in that message's text, where the match is that of the presence
  counter's word-bounded, escaped pattern applied case-sensitively (no flag), and the
  position is the index at which the match starts. If \<open>m\<close> is the most recent message
  (not from the system or the user) in which either of the members \<open>a\<close>, \<open>b\<close> matches,
  both match in it and \<open>a\<close> matches earlier, then \<open>a\<close> comes before \<open>b\<close> in the order.
\<close>

theorem order_same_message:
  assumes "rev (filter (\<lambda>it. \<not> is_system it \<and> \<not> is_user it) chat) = pre @ m # post"
    and "\<forall>m' \<in> set pre. first_match a (mes m') = None \<and> first_match b (mes m') = None"
    and "first_match a (mes m) = Some ia" and "first_match b (mes m) = Some ib" and "ia < ib"
    and "a \<in> set mems" and "b \<in> set mems"
  shows "precedes a b (getOrderFromText chat mems) \<and> b \<in> set (getOrderFromText chat mems)"
proof -
  from order_loop_skip [OF assms(2,6,7), of "[]" "m # post"] obtain mems' ord' where
    sk: "order_loop (pre @ m # post) mems [] = order_loop (m # post) mems' ord'"
      "a \<in> set mems'" "b \<in> set mems'" "a \<notin> set ord'" "b \<notin> set ord'"
    by auto
  define ns where "ns = map fst (sort_key snd (mesmem_of (mes m) mems'))"
  from order_loop_append [of post "splice_members ns mems'" "ord' @ first_occurrences ns"]
  obtain zs where
    "order_loop post (splice_members ns mems') (ord' @ first_occurrences ns) =
       (ord' @ first_occurrences ns) @ zs"
    by blast
  then have res: "getOrderFromText chat mems = ord' @ first_occurrences ns @ zs"
    using assms(1) sk(1) by (simp add: getOrderFromText_def ns_def Let_def)
  have p: "precedes a b (first_occurrences ns)"
    unfolding ns_def using assms(3,4,5) sk(2,3) by (rule same_message_order)
  have "set ns = {x \<in> set mems'. first_match x (mes m) \<noteq> None}"
    unfolding ns_def by (rule sorted_names_set)
  then have b: "b \<in> set ns"
    using assms(4) sk(3) by simp
  from precedes_append [OF sk(4,5) p, of zs] b show ?thesis
    by (simp add: res)
qed

theorem order_same_message_witness:
  "rev (filter (\<lambda>it. \<not> is_system it \<and> \<not> is_user it)
     [\<lparr>mes = ''bob met Alice and Bob'', is_user = False, is_system = False\<rparr>,
      \<lparr>mes = ''Alice, Bob'', is_user = True, is_system = False\<rparr>,
      \<lparr>mes = ''nothing here'', is_user = False, is_system = False\<rparr>]) =
     [\<lparr>mes = ''nothing here'', is_user = False, is_system = False\<rparr>] @
     \<lparr>mes = ''bob met Alice and Bob'', is_user = False, is_system = False\<rparr> # [] \<and>
   first_match ''Alice'' ''nothing here'' = None \<and> first_match ''Bob'' ''nothing here'' = None \<and>
   first_match ''Alice'' ''bob met Alice and Bob'' = Some 7 \<and>
   first_match ''Bob'' ''bob met Alice and Bob'' = Some 17 \<and> (7::nat) < 17 \<and>
   ''Alice'' \<in> set [''Bob'', ''Alice''] \<and> ''Bob'' \<in> set [''Bob'', ''Alice''] \<and>
   precedes ''Alice'' ''Bob''
     (getOrderFromText
        [\<lparr>mes = ''bob met Alice and Bob'', is_user = False, is_system = False\<rparr>,
         \<lparr>mes = ''Alice, Bob'', is_user = True, is_system = False\<rparr>,
         \<lparr>mes = ''nothing here'', is_user = False, is_system = False\<rparr>]
        [''Bob'', ''Alice'']) \<and>
   ''Bob'' \<in> set
     (getOrderFromText
        [\<lparr>mes = ''bob met Alice and Bob'', is_user = False, is_system = False\<rparr>,
         \<lparr>mes = ''Alice, Bob'', is_user = True, is_system = False\<rparr>,
         \<lparr>mes = ''nothing here'', is_user = False, is_system = False\<rparr>]
        [''Bob'', ''Alice''])"
proof -
  let ?m1 = "\<lparr>mes = ''bob met Alice and Bob'', is_user = False, is_system = False\<rparr>"
  let ?m2 = "\<lparr>mes = ''Alice, Bob'', is_user = True, is_system = False\<rparr>"
  let ?m3 = "\<lparr>mes = ''nothing here'', is_user = False, is_system = False\<rparr>"
  have c: "rev (filter (\<lambda>it. \<not> is_system it \<and> \<not> is_user it) [?m1, ?m2, ?m3]) = [?m3] @ ?m1 # []"
    by simp
  have n: "first_match ''Alice'' ''nothing here'' = None" "first_match ''Bob'' ''nothing here'' = None"
    by code_simp+
  have f: "first_match ''Alice'' ''bob met Alice and Bob'' = Some 7"
    "first_match ''Bob'' ''bob met Alice and Bob'' = Some 17"
    by code_simp+
  have pre: "\<forall>m' \<in> set [?m3]. first_match ''Alice'' (mes m') = None \<and> first_match ''Bob'' (mes m') = None"
    using n by simp
  have l: "(7::nat) < 17" and ms: "''Alice'' \<in> set [''Bob'', ''Alice'']" "''Bob'' \<in> set [''Bob'', ''Alice'']"
    by simp_all
  have m1: "first_match ''Alice'' (mes ?m1) = Some 7" "first_match ''Bob'' (mes ?m1) = Some 17"
    using f by simp_all
  from order_same_message [OF c pre m1 l ms] c n f l ms show ?thesis
    by blast
qed

section \<open>Properties of the restart guard\<close>

lemma run_pending:
  assumes "timer s = Some (t + timeout, a)" and "debouncePromise s = Some p"
    and "within_window timeout t cs"
  shows "\<exists>s'. run func others timeout cs (s, w) =
             (replicate (length cs) p, s', others_through others cs w) \<and>
           timer s' = Some (fst (last ((t, a) # cs)) + timeout, snd (last ((t, a) # cs))) \<and>
           debouncePromise s' = Some p \<and> debounceResolver s' = debounceResolver s \<and>
           promises s' = promises s \<and> executed s' = executed s \<and> resolved s' = resolved s"
  using assms
proof (induction cs arbitrary: s t a w)
  case Nil
  then show ?case by simp
next
  case (Cons c cs)
  obtain t' a' where c: "c = (t', a')" by (cases c)
  from Cons.prems(3) c have win: "t \<le> t'" "t' < t + timeout" "within_window timeout t' cs"
    by simp_all
  have adv: "advance func others t' (s, w) = (s, others t' w)"
    using Cons.prems(1) win(2) by (simp add: advance_def)
  define s1 where "s1 = s\<lparr>timer := Some (t' + timeout, a')\<rparr>"
  have inv: "invoke timeout t' a' s = (p, s1)"
    using Cons.prems(2) by (simp add: invoke_def s1_def Let_def)
  have s1: "timer s1 = Some (t' + timeout, a')" "debouncePromise s1 = Some p"
    using Cons.prems(2) by (simp_all add: s1_def)
  from Cons.IH [OF s1 win(3), where w = "others t' w"] obtain s' where
    s': "run func others timeout cs (s1, others t' w) =
           (replicate (length cs) p, s', others_through others cs (others t' w))"
      "timer s' = Some (fst (last ((t', a') # cs)) + timeout, snd (last ((t', a') # cs)))"
      "debouncePromise s' = Some p" "debounceResolver s' = debounceResolver s1"
      "promises s' = promises s1" "executed s' = executed s1" "resolved s' = resolved s1"
    by blast
  have "run func others timeout (c # cs) (s, w) =
      (replicate (length (c # cs)) p, s', others_through others (c # cs) w)"
    using c adv inv s'(1) by simp
  moreover have "last ((t, a) # c # cs) = last ((t', a') # cs)"
    using c by simp
  ultimately show ?case
    using s'(2-7) by (simp add: s1_def)
qed

lemma run_coalesces:
  assumes "within_window timeout t cs" and "idle s0"
  shows "\<exists>s s'. run func others timeout ((t, a) # cs) (s0, w) =
             (replicate (length cs + 1) (promises s0), s, others_through others ((t, a) # cs) w) \<and>
           executed s = executed s0 \<and>
           advance func others (fst (last ((t, a) # cs)) + timeout)
             (s, others_through others ((t, a) # cs) w) =
             (s', others (fst (last ((t, a) # cs)) + timeout)
                    (func (fst (last ((t, a) # cs)) + timeout) (snd (last ((t, a) # cs)))
                       (others (fst (last ((t, a) # cs)) + timeout)
                          (others_through others ((t, a) # cs) w)))) \<and>
           executed s' = executed s0 @ [snd (last ((t, a) # cs))] \<and>
           resolved s' = resolved s0 @ [(promises s0, length (executed s0))] \<and>
           timer s' = None \<and> debouncePromise s' = None"
proof -
  define p where "p = promises s0"
  define s1 where
    "s1 = s0\<lparr>debouncePromise := Some p, debounceResolver := Some p, promises := p + 1,
             timer := Some (t + timeout, a)\<rparr>"
  from assms(2) have i: "timer s0 = None" "debouncePromise s0 = None"
    by (simp_all add: idle_def)
  have first: "advance func others t (s0, w) = (s0, others t w)"
    "invoke timeout t a s0 = (p, s1)"
    using i by (simp_all add: invoke_def advance_def s1_def p_def Let_def)
  have t1: "timer s1 = Some (t + timeout, a)" and p1: "debouncePromise s1 = Some p"
    by (simp_all add: s1_def)
  from run_pending [OF t1 p1 assms(1), where func = func and others = others and w = "others t w"] obtain s where
    s: "run func others timeout cs (s1, others t w) =
          (replicate (length cs) p, s, others_through others cs (others t w))"
      "timer s = Some (fst (last ((t, a) # cs)) + timeout, snd (last ((t, a) # cs)))"
      "debouncePromise s = Some p" "debounceResolver s = debounceResolver s1"
      "promises s = promises s1" "executed s = executed s1" "resolved s = resolved s1"
    by blast
  let ?due = "fst (last ((t, a) # cs)) + timeout"
  let ?W = "others_through others ((t, a) # cs) w"
  define s' where "s' = fst (fire func (s, others ?due ?W))"
  have r: "run func others timeout ((t, a) # cs) (s0, w) = (replicate (length cs + 1) p, s, ?W)"
    using first s(1) by simp
  have e: "executed s = executed s0"
    using s(6) by (simp add: s1_def)
  have a: "advance func others ?due (s, ?W) =
      (s', others ?due (func ?due (snd (last ((t, a) # cs))) (others ?due ?W)))"
    using s(2) by (simp add: advance_def fire_def s'_def)
  have f: "executed s' = executed s0 @ [snd (last ((t, a) # cs))]"
    "resolved s' = resolved s0 @ [(p, length (executed s0))]"
    "timer s' = None" "debouncePromise s' = None"
    using s(2,4,6,7) by (simp_all add: s'_def fire_def s1_def)
  from r e a f show ?thesis unfolding p_def by blast
qed


lemma window_times:
  "within_window timeout t cs \<Longrightarrow> \<forall>c \<in> set ((t, a) # cs). fst c \<le> fst (last ((t, a) # cs))"
proof (induction cs arbitrary: t a)
  case Nil
  then show ?case by simp
next
  case (Cons c cs)
  obtain t' a' where c: "c = (t', a')" by (cases c)
  from Cons.prems c have "t \<le> t'" "within_window timeout t' cs" by simp_all
  with Cons.IH [of t' a'] c show ?case by fastforce
qed

lemma engine_advance_twice:
  "t1 \<le> t2 \<Longrightarrow> engine_advance t2 (engine_advance t1 e) = engine_advance t2 e"
  by (auto simp: engine_advance_def restart_leave_def split: option.splits)

lemma engine_through:
  "\<forall>c \<in> set cs. fst c \<le> T \<Longrightarrow>
     engine_advance T (others_through engine_advance cs e) = engine_advance T e"
proof (induction cs arbitrary: e)
  case Nil
  then show ?case by simp
next
  case (Cons c cs)
  obtain t a where c: "c = (t, a)" by (cases c)
  with Cons.prems have "t \<le> T" "\<forall>c \<in> set cs. fst c \<le> T" by simp_all
  with Cons.IH [of "engine_advance t e"] c show ?case
    by (simp add: engine_advance_twice)
qed

lemma enter_not_due:
  "engine_advance T (restart_enter tr T args (engine_advance T e)) =
     restart_enter tr T args (engine_advance T e)"
  by (auto simp: engine_advance_def restart_enter_def restart_leave_def restart_wait_def
      split: option.splits)

text \<open>
  Claim C9, as stated: while the restart sequence is executing, new trigger calls are
  ignored and queue no second restart. The guard is inside the debounced function, so it
  is read when the timeout runs, not when the trigger is made: a trigger at 700 ms, during
  the sequence that began at 300 ms and ends at 850 ms, gets a new promise and a timeout
  for 1000 ms; by then the flag is cleared and a second sequence begins.
\<close>

theorem trigger_during_sequence_counterexample:
  "run (restart_enter 400) engine_advance 300 [(0, ()), (700, ())]
     (debounce_init, \<lparr>restarting = False, sequences = 0, resume = None\<rparr>) =
     ([0, 1],
      \<lparr>timer = Some (1000, ()), debouncePromise = Some 1, debounceResolver = Some 1,
       promises = 2, executed = [()], resolved = [(0, 0)]\<rparr>,
      \<lparr>restarting = True, sequences = 1, resume = Some 850\<rparr>)
   \<and>
   advance (restart_enter 400) engine_advance 1000
     (\<lparr>timer = Some (1000, ()), debouncePromise = Some 1, debounceResolver = Some 1,
       promises = 2, executed = [()], resolved = [(0, 0)]\<rparr>,
      \<lparr>restarting = True, sequences = 1, resume = Some 850\<rparr>) =
     (\<lparr>timer = None, debouncePromise = None, debounceResolver = Some 1,
       promises = 2, executed = [(), ()], resolved = [(0, 0), (1, 1)]\<rparr>,
      \<lparr>restarting = True, sequences = 2, resume = Some 1550\<rparr>)"
  by code_simp

text \<open>
  Claim C9, amended: any number of calls of the debounced restart, each within the debounce
  window of the previous one, made while no call is pending, return the same pending
  promise and run nothing before the window of the last call has passed; then the wrapped
  function runs exactly once and the shared promise is resolved with the result of that
  run. The guard is read at that moment: if a restart sequence is still executing then
  (its delay is due later), the run changes nothing and no second restart begins; if the
  sequence has ended by then, also when the calls were made while it was executing, a new
  sequence begins.
\<close>

theorem debounced_restart_coalesces:
  assumes "within_window timeout t cs" and "idle s0"
  shows "\<exists>s s' e1.
           run (restart_enter tr) engine_advance timeout ((t, ()) # cs) (s0, e) =
             (replicate (length cs + 1) (promises s0), s, e1) \<and>
           executed s = executed s0 \<and>
           advance (restart_enter tr) engine_advance (fst (last ((t, ()) # cs)) + timeout) (s, e1) =
             (s', restart_enter tr (fst (last ((t, ()) # cs)) + timeout) ()
                    (engine_advance (fst (last ((t, ()) # cs)) + timeout) e)) \<and>
           executed s' = executed s0 @ [()] \<and>
           resolved s' = resolved s0 @ [(promises s0, length (executed s0))] \<and>
           timer s' = None \<and>
           (restarting e \<and> resume e = Some d \<and> fst (last ((t, ()) # cs)) + timeout < d \<longrightarrow>
              restart_enter tr (fst (last ((t, ()) # cs)) + timeout) ()
                (engine_advance (fst (last ((t, ()) # cs)) + timeout) e) = e) \<and>
           (restarting e \<and> resume e = Some d \<and> d \<le> fst (last ((t, ()) # cs)) + timeout \<longrightarrow>
              restart_enter tr (fst (last ((t, ()) # cs)) + timeout) ()
                (engine_advance (fst (last ((t, ()) # cs)) + timeout) e) =
              \<lparr>restarting = True, sequences = sequences e + 1,
               resume = Some (fst (last ((t, ()) # cs)) + timeout + restart_wait tr)\<rparr>) \<and>
           (\<not> restarting e \<and> resume e = None \<longrightarrow>
              restart_enter tr (fst (last ((t, ()) # cs)) + timeout) ()
                (engine_advance (fst (last ((t, ()) # cs)) + timeout) e) =
              \<lparr>restarting = True, sequences = sequences e + 1,
               resume = Some (fst (last ((t, ()) # cs)) + timeout + restart_wait tr)\<rparr>)"
proof -
  let ?due = "fst (last ((t, ()) # cs)) + timeout"
  let ?cs = "(t, ()) # cs"
  from run_coalesces [OF assms, where func = "restart_enter tr" and others = engine_advance
      and a = "()" and w = e]
  obtain s s' where
    r: "run (restart_enter tr) engine_advance timeout ?cs (s0, e) =
          (replicate (length cs + 1) (promises s0), s, others_through engine_advance ?cs e)"
    and x: "executed s = executed s0"
    and a: "advance (restart_enter tr) engine_advance ?due (s, others_through engine_advance ?cs e) =
          (s', engine_advance ?due (restart_enter tr ?due (snd (last ?cs))
                 (engine_advance ?due (others_through engine_advance ?cs e))))"
    and f: "executed s' = executed s0 @ [snd (last ?cs)]"
      "resolved s' = resolved s0 @ [(promises s0, length (executed s0))]" "timer s' = None"
    by blast
  from window_times [OF assms(1), of "()"] have "\<forall>c \<in> set ?cs. fst c \<le> ?due"
    by fastforce
  from engine_through [OF this]
  have th: "engine_advance ?due (others_through engine_advance ?cs e) = engine_advance ?due e" .
  have a': "advance (restart_enter tr) engine_advance ?due (s, others_through engine_advance ?cs e) =
          (s', restart_enter tr ?due () (engine_advance ?due e))"
    unfolding a th by (simp add: enter_not_due)
  have g1: "restarting e \<and> resume e = Some d \<and> ?due < d \<longrightarrow>
      restart_enter tr ?due () (engine_advance ?due e) = e"
    by (auto simp: engine_advance_def restart_enter_def)
  have g2: "restarting e \<and> resume e = Some d \<and> d \<le> ?due \<longrightarrow>
      restart_enter tr ?due () (engine_advance ?due e) =
      \<lparr>restarting = True, sequences = sequences e + 1, resume = Some (?due + restart_wait tr)\<rparr>"
    by (auto simp: engine_advance_def restart_enter_def restart_leave_def)
  have g3: "\<not> restarting e \<and> resume e = None \<longrightarrow>
      restart_enter tr ?due () (engine_advance ?due e) =
      \<lparr>restarting = True, sequences = sequences e + 1, resume = Some (?due + restart_wait tr)\<rparr>"
    by (auto simp: engine_advance_def restart_enter_def)
  from r x a' f g1 g2 g3 show ?thesis
    by auto
qed

theorem debounced_restart_coalesces_witness:
  "within_window 300 400 [(500, ())] \<and>
   idle \<lparr>timer = None, debouncePromise = None, debounceResolver = Some 0,
         promises = 1, executed = [()], resolved = [(0, 0)]\<rparr> \<and>
   restarting \<lparr>restarting = True, sequences = 1, resume = Some 850\<rparr> \<and>
   resume \<lparr>restarting = True, sequences = 1, resume = Some 850\<rparr> = Some 850 \<and>
   fst (last ((400, ()) # [(500::nat, ())])) + 300 < (850::nat) \<and>
   (\<exists>s s' e1.
      run (restart_enter 400) engine_advance 300 ((400, ()) # [(500, ())])
        (\<lparr>timer = None, debouncePromise = None, debounceResolver = Some 0,
          promises = 1, executed = [()], resolved = [(0, 0)]\<rparr>,
         \<lparr>restarting = True, sequences = 1, resume = Some 850\<rparr>) =
        (replicate (length [(500::nat, ())] + 1) 1, s, e1) \<and>
      advance (restart_enter 400) engine_advance (fst (last ((400, ()) # [(500, ())])) + 300) (s, e1) =
        (s', \<lparr>restarting = True, sequences = 1, resume = Some 850\<rparr>) \<and>
      executed s' = [()] @ [()]) \<and>
   within_window 300 700 ([] :: (nat \<times> unit) list) \<and>
   (850::nat) \<le> fst (last ((700, ()) # [])) + 300 \<and>
   (\<exists>s s' e1.
      run (restart_enter 400) engine_advance 300 ((700, ()) # [])
        (\<lparr>timer = None, debouncePromise = None, debounceResolver = Some 0,
          promises = 1, executed = [()], resolved = [(0, 0)]\<rparr>,
         \<lparr>restarting = True, sequences = 1, resume = Some 850\<rparr>) =
        (replicate (length ([] :: (nat \<times> unit) list) + 1) 1, s, e1) \<and>
      advance (restart_enter 400) engine_advance (fst (last ((700, ()) # [])) + 300) (s, e1) =
        (s', \<lparr>restarting = True, sequences = 1 + 1,
              resume = Some (fst (last ((700, ()) # [])) + 300 + restart_wait 400)\<rparr>)) \<and>
   within_window 300 0 [(100, ()), (250, ())] \<and> idle (debounce_init :: unit debounce) \<and>
   \<not> restarting \<lparr>restarting = False, sequences = 0, resume = None\<rparr> \<and>
   (\<exists>s s' e1.
      run (restart_enter 400) engine_advance 300 ((0, ()) # [(100, ()), (250, ())])
        (debounce_init, \<lparr>restarting = False, sequences = 0, resume = None\<rparr>) =
        (replicate (length [(100::nat, ()), (250, ())] + 1) 0, s, e1) \<and>
      advance (restart_enter 400) engine_advance
        (fst (last ((0, ()) # [(100, ()), (250, ())])) + 300) (s, e1) =
        (s', \<lparr>restarting = True, sequences = 0 + 1,
              resume = Some (fst (last ((0, ()) # [(100, ()), (250, ())])) + 300 + restart_wait 400)\<rparr>) \<and>
      executed s' = [()] \<and> resolved s' = [(0, 0)])"
proof -
  let ?st = "\<lparr>timer = None, debouncePromise = None, debounceResolver = Some 0,
              promises = 1, executed = [()], resolved = [(0, 0)]\<rparr> :: unit debounce"
  let ?e = "\<lparr>restarting = True, sequences = 1, resume = Some 850\<rparr>"
  let ?idle = "\<lparr>restarting = False, sequences = 0, resume = None\<rparr>"
  have w1: "within_window 300 400 [(500, ())]"
    and w2: "within_window 300 700 ([] :: (nat \<times> unit) list)"
    and w3: "within_window 300 0 [(100, ()), (250, ())]"
    by simp_all
  have i: "idle ?st" and i0: "idle (debounce_init :: unit debounce)"
    by (simp_all add: idle_def debounce_init_def)
  have r: "restarting ?e" "resume ?e = Some 850" "\<not> restarting ?idle" "resume ?idle = None"
    by simp_all
  have d1: "fst (last ((400, ()) # [(500::nat, ())])) + 300 < (850::nat)"
    and d2: "(850::nat) \<le> fst (last ((700, ()) # [])) + 300"
    by simp_all
  have c1: "\<exists>s s' e1.
      run (restart_enter 400) engine_advance 300 ((400, ()) # [(500, ())]) (?st, ?e) =
        (replicate (length [(500::nat, ())] + 1) 1, s, e1) \<and>
      advance (restart_enter 400) engine_advance (fst (last ((400, ()) # [(500, ())])) + 300) (s, e1) =
        (s', ?e) \<and>
      executed s' = [()] @ [()]"
    using debounced_restart_coalesces [OF w1 i, of 400 ?e 850] r d1 by auto
  have c2: "\<exists>s s' e1.
      run (restart_enter 400) engine_advance 300 ((700, ()) # []) (?st, ?e) =
        (replicate (length ([] :: (nat \<times> unit) list) + 1) 1, s, e1) \<and>
      advance (restart_enter 400) engine_advance (fst (last ((700, ()) # [])) + 300) (s, e1) =
        (s', \<lparr>restarting = True, sequences = 1 + 1,
              resume = Some (fst (last ((700, ()) # [])) + 300 + restart_wait 400)\<rparr>)"
    using debounced_restart_coalesces [OF w2 i, of 400 ?e 850] r d2 by auto
  have c3: "\<exists>s s' e1.
      run (restart_enter 400) engine_advance 300 ((0, ()) # [(100, ()), (250, ())])
        (debounce_init, ?idle) =
        (replicate (length [(100::nat, ()), (250, ())] + 1) 0, s, e1) \<and>
      advance (restart_enter 400) engine_advance
        (fst (last ((0, ()) # [(100, ()), (250, ())])) + 300) (s, e1) =
        (s', \<lparr>restarting = True, sequences = 0 + 1,
              resume = Some (fst (last ((0, ()) # [(100, ()), (250, ())])) + 300 + restart_wait 400)\<rparr>) \<and>
      executed s' = [()] \<and> resolved s' = [(0, 0)]"
    using debounced_restart_coalesces [OF w3 i0, of 400 ?idle 0] r
    by (auto simp: debounce_init_def)
  from w1 w2 w3 i i0 r d1 d2 c1 c2 c3 show ?thesis
    by (intro conjI)
qed

end
